theory Spec2Isabelle
  imports Main "HOL-Library.Multiset"
begin

section \<open>JavaScript strings\<close>

text \<open>
  A JavaScript string is a sequence of UTF-16 code units. The code of
  \<^verbatim>\<open>src/src/utils/ical.ts\<close> looks at code units above 255 (the byte-order mark
  \<^verbatim>\<open>0xFEFF\<close>, the Unicode white space of \<^verbatim>\<open>trim\<close> and \<^verbatim>\<open>\s\<close>), so a string is a
  list of code unit values and not a list of 8-bit characters.
\<close>

type_synonym jsstring = "nat list"

definition js :: "string \<Rightarrow> jsstring" where
  "js s = map of_char s"

text \<open>White space of \<^verbatim>\<open>String.prototype.trim\<close> and of the regular expression class \<^verbatim>\<open>\s\<close>.\<close>

definition isWhiteSpace :: "nat \<Rightarrow> bool" where
  "isWhiteSpace c \<longleftrightarrow>
     c = 9 \<or> c = 10 \<or> c = 11 \<or> c = 12 \<or> c = 13 \<or> c = 32 \<or> c = 160 \<or> c = 5760 \<or>
     (8192 \<le> c \<and> c \<le> 8202) \<or> c = 8232 \<or> c = 8233 \<or> c = 8239 \<or> c = 8287 \<or>
     c = 12288 \<or> c = 65279"

text \<open>Line terminators, where \<^verbatim>\<open>$\<close> matches under the \<^verbatim>\<open>m\<close> flag.\<close>

definition isLineTerminator :: "nat \<Rightarrow> bool" where
  "isLineTerminator c \<longleftrightarrow> c = 10 \<or> c = 13 \<or> c = 8232 \<or> c = 8233"

definition trimStart :: "jsstring \<Rightarrow> jsstring" where
  "trimStart s = dropWhile isWhiteSpace s"

definition trimEnd :: "jsstring \<Rightarrow> jsstring" where
  "trimEnd s = rev (dropWhile isWhiteSpace (rev s))"

definition trim :: "jsstring \<Rightarrow> jsstring" where
  "trim s = trimEnd (trimStart s)"

text \<open>\<^verbatim>\<open>String(n)\<close> for an integral number: decimal digits, with a minus sign.\<close>

fun natToDigits :: "nat \<Rightarrow> jsstring" where
  "natToDigits n = (if n < 10 then [48 + n] else natToDigits (n div 10) @ [48 + n mod 10])"

declare natToDigits.simps [simp del]

definition numToString :: "int \<Rightarrow> jsstring" where
  "numToString i = (if i < 0 then 45 # natToDigits (nat (- i)) else natToDigits (nat i))"

text \<open>\<^verbatim>\<open>s.padStart(n, c)\<close> for a one-character filler.\<close>

definition padStart :: "nat \<Rightarrow> nat \<Rightarrow> jsstring \<Rightarrow> jsstring" where
  "padStart n c s = replicate (n - length s) c @ s"

section \<open>JavaScript dates\<close>

text \<open>
  A \<^verbatim>\<open>Date\<close> is modelled by its time value, the number of milliseconds since the
  epoch, as an unbounded integer. The local time zone is a parameter: the offset to add
  to a UTC time value, and the offset to subtract from a local time value (ECMAScript's
  \<^verbatim>\<open>LocalTZA(t, true)\<close> and \<^verbatim>\<open>LocalTZA(t, false)\<close>). Invalid dates (\<^verbatim>\<open>NaN\<close>) and the
  range limit of \<^verbatim>\<open>TimeClip\<close> are outside the model.
\<close>

record timezone =
  offsetAtUTC :: "int \<Rightarrow> int"
  offsetAtLocal :: "int \<Rightarrow> int"

definition fixedZone :: "int \<Rightarrow> timezone" where
  "fixedZone off = \<lparr> offsetAtUTC = (\<lambda>_. off), offsetAtLocal = (\<lambda>_. off) \<rparr>"

definition msPerDay :: int where
  "msPerDay = 86400000"

definition Day :: "int \<Rightarrow> int" where
  "Day t = t div msPerDay"

definition TimeWithinDay :: "int \<Rightarrow> int" where
  "TimeWithinDay t = t mod msPerDay"

definition MakeTime :: "int \<Rightarrow> int \<Rightarrow> int \<Rightarrow> int \<Rightarrow> int" where
  "MakeTime h m s ms = h * 3600000 + m * 60000 + s * 1000 + ms"

definition MakeDate :: "int \<Rightarrow> int \<Rightarrow> int" where
  "MakeDate day time = day * msPerDay + time"

definition LocalTime :: "timezone \<Rightarrow> int \<Rightarrow> int" where
  "LocalTime tz t = t + offsetAtUTC tz t"

definition UTC :: "timezone \<Rightarrow> int \<Rightarrow> int" where
  "UTC tz t = t - offsetAtLocal tz t"

text \<open>
  The proleptic Gregorian date (year, month 1..12, day of month) of a day number
  counted from 1970-01-01, by 400-year eras of 146097 days.
\<close>

definition civilFromDays :: "int \<Rightarrow> int \<times> int \<times> int" where
  "civilFromDays z0 =
     (let z = z0 + 719468;
          era = z div 146097;
          doe = z mod 146097;
          yoe = (doe - doe div 1460 + doe div 36524 - doe div 146096) div 365;
          y = yoe + era * 400;
          doy = doe - (365 * yoe + yoe div 4 - yoe div 100);
          mp = (5 * doy + 2) div 153;
          d = doy - (153 * mp + 2) div 5 + 1;
          m = (if mp < 10 then mp + 3 else mp - 9)
      in (if m \<le> 2 then y + 1 else y, m, d))"

definition YearFromTime :: "int \<Rightarrow> int" where
  "YearFromTime t = fst (civilFromDays (Day t))"

text \<open>Months are numbered from 0, as \<^verbatim>\<open>getMonth\<close> returns them.\<close>

definition MonthFromTime :: "int \<Rightarrow> int" where
  "MonthFromTime t = fst (snd (civilFromDays (Day t))) - 1"

definition DateFromTime :: "int \<Rightarrow> int" where
  "DateFromTime t = snd (snd (civilFromDays (Day t)))"

definition getFullYear :: "timezone \<Rightarrow> int \<Rightarrow> int" where
  "getFullYear tz t = YearFromTime (LocalTime tz t)"

definition getMonth :: "timezone \<Rightarrow> int \<Rightarrow> int" where
  "getMonth tz t = MonthFromTime (LocalTime tz t)"

definition getDate :: "timezone \<Rightarrow> int \<Rightarrow> int" where
  "getDate tz t = DateFromTime (LocalTime tz t)"

text \<open>
  \<^verbatim>\<open>d.setHours(h, m, s, ms)\<close>: the local day of \<^verbatim>\<open>d\<close> with a new time within the day.
\<close>

definition setHours :: "timezone \<Rightarrow> int \<Rightarrow> int \<Rightarrow> int \<Rightarrow> int \<Rightarrow> int \<Rightarrow> int" where
  "setHours tz t h m s ms =
     (let lt = LocalTime tz t in UTC tz (MakeDate (Day lt) (MakeTime h m s ms)))"

text \<open>
  \<^verbatim>\<open>d.setDate(dt)\<close>: ECMAScript's \<^verbatim>\<open>MakeDay(year, month, dt)\<close> is the day number of the
  first of the local month of \<^verbatim>\<open>d\<close>, plus \<^verbatim>\<open>dt - 1\<close>; the first of the month is
  \<^verbatim>\<open>DateFromTime - 1\<close> days before the day of \<^verbatim>\<open>d\<close>. The time within the day is kept.
\<close>

definition setDate :: "timezone \<Rightarrow> int \<Rightarrow> int \<Rightarrow> int" where
  "setDate tz t dt =
     (let lt = LocalTime tz t;
          firstOfMonth = Day lt - (DateFromTime lt - 1)
      in UTC tz (MakeDate (firstOfMonth + dt - 1) (TimeWithinDay lt)))"

section \<open>Events and the week view (src/src/utils/ical.ts)\<close>

text \<open>
  \<^verbatim>\<open>CalendarEvent\<close> of the repository's types; the fields carry the prefix \<open>ev_\<close>
  (\<open>id\<close> and \<open>end\<close> are taken in HOL). An absent \<^verbatim>\<open>location\<close> is \<open>None\<close>.
\<close>

record CalendarEvent =
  ev_id :: jsstring
  ev_title :: jsstring
  ev_start :: int
  ev_end :: int
  ev_allDay :: bool
  ev_calendarId :: jsstring
  ev_calendarName :: jsstring
  ev_color :: jsstring
  ev_location :: "jsstring option"

definition startOfDay :: "timezone \<Rightarrow> int \<Rightarrow> int" where
  "startOfDay tz d = setHours tz d 0 0 0 0"

definition toLocalDateKey :: "timezone \<Rightarrow> int \<Rightarrow> jsstring" where
  "toLocalDateKey tz d =
     (let y = getFullYear tz d;
          m = padStart 2 48 (numToString (getMonth tz d + 1));
          day = padStart 2 48 (numToString (getDate tz d))
      in numToString y @ js ''-'' @ m @ js ''-'' @ day)"

definition WEEKDAY_COUNT :: int where
  "WEEKDAY_COUNT = 5"

definition endOfWeekdays :: "timezone \<Rightarrow> int \<Rightarrow> int" where
  "endOfWeekdays tz start =
     (let out = setDate tz start (getDate tz start + WEEKDAY_COUNT)
      in setHours tz out 23 59 59 999)"

definition filterEventsForWeek :: "timezone \<Rightarrow> CalendarEvent list \<Rightarrow> int \<Rightarrow> CalendarEvent list" where
  "filterEventsForWeek tz events weekStart =
     (let start = startOfDay tz weekStart;
          end = endOfWeekdays tz start
      in filter (\<lambda>ev. ev_end ev > start \<and> ev_start ev < end) events)"

text \<open>
  A JavaScript \<^verbatim>\<open>Map\<close> keeps its keys in the order of their first insertion; \<^verbatim>\<open>set\<close> on
  a key that is present replaces the value in place.
\<close>

type_synonym 'v jsmap = "(jsstring \<times> 'v) list"

definition mapHas :: "'v jsmap \<Rightarrow> jsstring \<Rightarrow> bool" where
  "mapHas m k \<longleftrightarrow> k \<in> fst ` set m"

definition mapGet :: "'v jsmap \<Rightarrow> jsstring \<Rightarrow> 'v option" where
  "mapGet m k = map_of m k"

definition mapSet :: "'v jsmap \<Rightarrow> jsstring \<Rightarrow> 'v \<Rightarrow> 'v jsmap" where
  "mapSet m k v =
     (if mapHas m k then map (\<lambda>(k', v'). if k' = k then (k', v) else (k', v')) m
      else m @ [(k, v)])"

text \<open>
  \<^verbatim>\<open>arr.sort((a, b) => a.start.getTime() - b.start.getTime())\<close>: a stable sort by the
  start time value.
\<close>

definition sortByStart :: "CalendarEvent list \<Rightarrow> CalendarEvent list" where
  "sortByStart arr = sort_key ev_start arr"

definition groupStep :: "timezone \<Rightarrow> CalendarEvent \<Rightarrow> CalendarEvent list jsmap \<Rightarrow> CalendarEvent list jsmap" where
  "groupStep tz ev m =
     (let dayKey = toLocalDateKey tz (ev_start ev)
      in if mapHas m dayKey
         then (case mapGet m dayKey of
                 Some arr \<Rightarrow> mapSet m dayKey (arr @ [ev])
               | None \<Rightarrow> m)
         else m)"

definition groupEventsByDay :: "timezone \<Rightarrow> CalendarEvent list \<Rightarrow> jsstring list \<Rightarrow> CalendarEvent list jsmap" where
  "groupEventsByDay tz events dateKeys =
     (let map0 = fold (\<lambda>key m. mapSet m key []) dateKeys [];
          map1 = fold (groupStep tz) events map0
      in map (\<lambda>(k, arr). (k, sortByStart arr)) map1)"

definition getWeekDateKeys :: "timezone \<Rightarrow> int \<Rightarrow> jsstring list" where
  "getWeekDateKeys tz weekStart =
     (let start = setHours tz weekStart 0 0 0 0
      in map (\<lambda>i. toLocalDateKey tz (setDate tz start (getDate tz start + i)))
           [0 .. WEEKDAY_COUNT - 1])"

section \<open>Normalising the text of a feed\<close>

text \<open>
  The regular expressions of the source, each as the predicate it decides. Under the
  \<^verbatim>\<open>i\<close> flag (without \<^verbatim>\<open>u\<close>) a code unit outside ASCII never matches an ASCII
  character of the pattern, so case folding is that of the ASCII letters.
\<close>

definition canon :: "nat \<Rightarrow> nat" where
  "canon c = (if 97 \<le> c \<and> c \<le> 122 then c - 32 else c)"

definition startsWithCI :: "jsstring \<Rightarrow> jsstring \<Rightarrow> bool" where
  "startsWithCI pat s \<longleftrightarrow>
     length pat \<le> length s \<and> map canon (take (length pat) s) = map canon pat"

text \<open>A regular expression without anchor is tried at every position of the text.\<close>

fun existsAt :: "(jsstring \<Rightarrow> bool) \<Rightarrow> jsstring \<Rightarrow> bool" where
  "existsAt P [] = P []"
| "existsAt P (c # cs) = (P (c # cs) \<or> existsAt P cs)"

definition containsCI :: "jsstring \<Rightarrow> jsstring \<Rightarrow> bool" where
  "containsCI pat s = existsAt (startsWithCI pat) s"

text \<open>\<^verbatim>\<open>/BEGIN:VCALENDAR/i.test(s)\<close>\<close>

definition testBeginVCalendar :: "jsstring \<Rightarrow> bool" where
  "testBeginVCalendar s = containsCI (js ''BEGIN:VCALENDAR'') s"

text \<open>
  \<^verbatim>\<open>\s*$\<close> under the \<^verbatim>\<open>m\<close> flag: white space up to the end of the text or up to a
  line terminator.
\<close>

fun spaceThenEndOfLine :: "jsstring \<Rightarrow> bool" where
  "spaceThenEndOfLine [] = True"
| "spaceThenEndOfLine (c # cs) = (isLineTerminator c \<or> (isWhiteSpace c \<and> spaceThenEndOfLine cs))"

text \<open>\<^verbatim>\<open>/END:VCALENDAR\s*$/im.test(s)\<close>\<close>

definition testEndVCalendar :: "jsstring \<Rightarrow> bool" where
  "testEndVCalendar s =
     existsAt (\<lambda>u. startsWithCI (js ''END:VCALENDAR'') u \<and>
                   spaceThenEndOfLine (drop (length (js ''END:VCALENDAR'')) u)) s"

text \<open>\<^verbatim>\<open>/[;:]/.test(s)\<close>\<close>

definition looksLikeProperty :: "jsstring \<Rightarrow> bool" where
  "looksLikeProperty s \<longleftrightarrow> 59 \<in> set s \<or> 58 \<in> set s"

text \<open>
  One step of \<^verbatim>\<open>re.exec\<close> for \<^verbatim>\<open>/\r\n|\n|\r/g\<close>: the text before the next line break
  and the text after it, or \<open>None\<close> when there is no line break left.
\<close>

fun nextBreak :: "jsstring \<Rightarrow> (jsstring \<times> jsstring) option" where
  "nextBreak [] = None"
| "nextBreak (c # cs) =
     (if c = 13 then (case cs of d # ds \<Rightarrow> if d = 10 then Some ([], ds) else Some ([], cs)
                               | [] \<Rightarrow> Some ([], cs))
      else if c = 10 then Some ([], cs)
      else (case nextBreak cs of None \<Rightarrow> None | Some (l, r) \<Rightarrow> Some (c # l, r)))"

text \<open>The body of the loop of \<^verbatim>\<open>fixBrokenLineFolding\<close> for one line.\<close>

definition foldLine :: "jsstring list \<Rightarrow> jsstring \<Rightarrow> jsstring list" where
  "foldLine lines line =
     (let trimmed = trimStart line;
          isContinuation = (case line of [] \<Rightarrow> False | c # _ \<Rightarrow> c = 32 \<or> c = 9)
      in if \<not> looksLikeProperty trimmed \<and> \<not> isContinuation \<and> trimmed \<noteq> [] \<and> lines \<noteq> []
         then butlast lines @ [last lines @ [92, 110] @ trimmed]
         else lines @ [line])"

function fixLoop :: "jsstring list \<Rightarrow> jsstring \<Rightarrow> jsstring list" where
  "fixLoop lines text =
     (case nextBreak text of
        None \<Rightarrow> (if text \<noteq> [] then lines @ [text] else lines)
      | Some (line, rest) \<Rightarrow> fixLoop (foldLine lines line) rest)"
  by pat_completeness auto
termination
proof (relation "measure (\<lambda>(lines, text). length text)")
  show "wf (measure (\<lambda>(lines, text). length text))" by simp
next
  fix lines :: "jsstring list" and s :: jsstring and p line rest
  assume nb: "nextBreak s = Some p" and p: "(line, rest) = p"
  have "length r < length t" if "nextBreak t = Some (l, r)" for t l r
    using that by (induction t arbitrary: l r) (auto split: if_splits list.splits option.splits)
  from this[of s line rest] nb p
  show "((foldLine lines line, rest), (lines, s)) \<in> measure (\<lambda>(lines, text). length text)"
    by simp
qed

declare fixLoop.simps [simp del]

text \<open>\<^verbatim>\<open>lines.join('\r\n')\<close>\<close>

fun joinLines :: "jsstring list \<Rightarrow> jsstring" where
  "joinLines [] = []"
| "joinLines [l] = l"
| "joinLines (l # ls) = l @ [13, 10] @ joinLines ls"

definition fixBrokenLineFolding :: "jsstring \<Rightarrow> jsstring" where
  "fixBrokenLineFolding icsText = joinLines (fixLoop [] icsText)"

definition stripBOM :: "jsstring \<Rightarrow> jsstring" where
  "stripBOM s = (case s of [] \<Rightarrow> s | c # cs \<Rightarrow> if c = 65279 then cs else s)"

definition normalizeICSText :: "jsstring \<Rightarrow> jsstring" where
  "normalizeICSText icsText =
     (let s = trimEnd (fixBrokenLineFolding (stripBOM icsText))
      in if testBeginVCalendar s \<and> \<not> testEndVCalendar s
         then s @ [13, 10] @ js ''END:VCALENDAR''
         else s)"

section \<open>Parsing a feed\<close>

text \<open>
  The library \<^verbatim>\<open>ical.js\<close> is not part of the repository. What the code reads from it is
  data of the model: the time of an \<^verbatim>\<open>ICAL.Time\<close> (the time value of \<^verbatim>\<open>toJSDate()\<close> and
  the flag \<^verbatim>\<open>isDate\<close>), the properties of an \<^verbatim>\<open>ICAL.Event\<close>, the occurrences its
  iterator returns, call by call, and the details of each occurrence. A call of the
  library that raises is a value too.
\<close>

record ical_time =
  toJSDate :: int
  isDate :: bool

record ical_event =
  summary :: "jsstring option"
  uid :: "jsstring option"
  location :: "jsstring option"
  startDate :: "ical_time option"

text \<open>
  \<^verbatim>\<open>event.getOccurrenceDetails(occ)\<close>: the start and end of the occurrence and the
  event that describes it (\<open>None\<close> when \<^verbatim>\<open>details.item\<close> is not set).
\<close>

record occurrence_details =
  detailsStart :: int
  detailsEnd :: int
  item :: "ical_event option"

text \<open>
  An occurrence returned by \<^verbatim>\<open>iter.next()\<close>: its time value, and its details, \<open>None\<close>
  when \<^verbatim>\<open>getOccurrenceDetails\<close> raises.
\<close>

record occurrence =
  occTimeMs :: int
  occDetails :: "occurrence_details option"

datatype iter_step = IterEnd | IterThrows | IterOcc occurrence

text \<open>
  A \<^verbatim>\<open>VEVENT\<close> component: \<open>occurrences v n\<close> is what the \<open>n\<close>-th call of \<^verbatim>\<open>iter.next()\<close>
  does (counted from 0); \<open>endDate v = None\<close> when reading the end of the event raises.
\<close>

record vevent =
  hasRecurrenceId :: bool
  event :: ical_event
  endDate :: "ical_time option"
  isRecurring :: bool
  occurrences :: "nat \<Rightarrow> iter_step"

text \<open>
  The parsed calendar: its \<^verbatim>\<open>VEVENT\<close> components, or a component on which
  \<^verbatim>\<open>getAllSubcomponents\<close> raises.
\<close>

datatype component = Component "vevent list" | BrokenComponent

definition RECURRENCE_EXPAND_DAYS_PAST :: int where
  "RECURRENCE_EXPAND_DAYS_PAST = 7"

definition RECURRENCE_EXPAND_DAYS_FUTURE :: int where
  "RECURRENCE_EXPAND_DAYS_FUTURE = 90"

text \<open>
  The object literal of \<^verbatim>\<open>pushEvent\<close>. Reading \<^verbatim>\<open>event.startDate.isDate\<close> raises a
  \<^verbatim>\<open>TypeError\<close> when the event has no start: \<open>None\<close>.
\<close>

definition newEvent ::
  "ical_event \<Rightarrow> int \<Rightarrow> int \<Rightarrow> jsstring \<Rightarrow> jsstring \<Rightarrow> jsstring \<Rightarrow> jsstring option
     \<Rightarrow> CalendarEvent option" where
  "newEvent ev start end calendarId calendarName color occurrenceId =
     (let trimmedSummary = (case summary ev of None \<Rightarrow> [] | Some s \<Rightarrow> trim s);
          summary = (if trimmedSummary = [] then js ''(No title)'' else trimmedSummary);
          fallback = numToString start @ js ''-'' @ summary;
          uid = (case uid ev of None \<Rightarrow> fallback | Some u \<Rightarrow> if u = [] then fallback else u);
          plainId = calendarId @ js ''-'' @ uid;
          id = (case occurrenceId of
                  None \<Rightarrow> plainId
                | Some occ \<Rightarrow> if occ = [] then plainId else plainId @ js ''-'' @ occ);
          location = (case location ev of None \<Rightarrow> None | Some l \<Rightarrow> Some (trim l))
      in case startDate ev of
           None \<Rightarrow> None
         | Some sd \<Rightarrow>
             Some \<lparr> ev_id = id, ev_title = summary, ev_start = start, ev_end = end,
                    ev_allDay = isDate sd, ev_calendarId = calendarId,
                    ev_calendarName = calendarName, ev_color = color,
                    ev_location = (case location of
                                     None \<Rightarrow> None
                                   | Some l \<Rightarrow> if l = [] then None else Some l) \<rparr>)"

definition pushEvent ::
  "CalendarEvent list \<Rightarrow> ical_event \<Rightarrow> int \<Rightarrow> int \<Rightarrow> jsstring \<Rightarrow> jsstring \<Rightarrow> jsstring
     \<Rightarrow> jsstring option \<Rightarrow> CalendarEvent list option" where
  "pushEvent events ev start end calendarId calendarName color occurrenceId =
     (case newEvent ev start end calendarId calendarName color occurrenceId of
        None \<Rightarrow> None
      | Some e \<Rightarrow> Some (events @ [e]))"

definition maxOccurrences :: nat where
  "maxOccurrences = 500"

text \<open>
  The \<^verbatim>\<open>while\<close> loop over the occurrences of a recurring event. \<open>cnt\<close> (the source's \<^verbatim>\<open>count\<close>) is the number
  of occurrences the iterator has returned so far, so the next call of \<^verbatim>\<open>iter.next()\<close>
  is call number \<open>cnt\<close>. An exception leaves the loop with the events pushed so far
  (the \<^verbatim>\<open>catch\<close> of the enclosing \<^verbatim>\<open>try\<close> only logs it).
\<close>

function expandLoop ::
  "ical_event \<Rightarrow> (nat \<Rightarrow> iter_step) \<Rightarrow> int \<Rightarrow> int \<Rightarrow> jsstring \<Rightarrow> jsstring \<Rightarrow> jsstring
     \<Rightarrow> nat \<Rightarrow> CalendarEvent list \<Rightarrow> CalendarEvent list" where
  "expandLoop ev iter rangeStartTime rangeEndTime calendarId calendarName color cnt events =
     (if cnt < maxOccurrences then
        (case iter cnt of
           IterEnd \<Rightarrow> events
         | IterThrows \<Rightarrow> events
         | IterOcc occ \<Rightarrow>
             if occTimeMs occ > rangeEndTime then events
             else if occTimeMs occ < rangeStartTime then
               expandLoop ev iter rangeStartTime rangeEndTime calendarId calendarName color
                 (cnt + 1) events
             else
               (case occDetails occ of
                  None \<Rightarrow> events
                | Some details \<Rightarrow>
                    (case pushEvent events (case item details of Some it \<Rightarrow> it | None \<Rightarrow> ev)
                            (detailsStart details) (detailsEnd details)
                            calendarId calendarName color (Some (numToString (occTimeMs occ))) of
                       None \<Rightarrow> events
                     | Some events' \<Rightarrow>
                         expandLoop ev iter rangeStartTime rangeEndTime calendarId calendarName
                           color (cnt + 1) events')))
      else events)"
  by pat_completeness auto
termination
  by (relation "measure (\<lambda>(ev, iter, rs, re, cid, cname, color, cnt, events).
                            maxOccurrences - cnt)") auto

declare expandLoop.simps [simp del]

text \<open>
  The body of the loop over the \<^verbatim>\<open>VEVENT\<close> components, with its \<^verbatim>\<open>try\<close>/\<^verbatim>\<open>catch\<close>:
  the events array after the component has been handled.
\<close>

definition parseVEvent ::
  "int \<Rightarrow> int \<Rightarrow> jsstring \<Rightarrow> jsstring \<Rightarrow> jsstring \<Rightarrow> vevent \<Rightarrow> CalendarEvent list
     \<Rightarrow> CalendarEvent list" where
  "parseVEvent rangeStartTime rangeEndTime calendarId calendarName color v events =
     (if hasRecurrenceId v then events
      else case startDate (event v) of
        None \<Rightarrow> events
      | Some sd \<Rightarrow>
          if isRecurring v then
            expandLoop (event v) (occurrences v) rangeStartTime rangeEndTime
              calendarId calendarName color 0 events
          else
            (case endDate v of
               None \<Rightarrow> events
             | Some ed \<Rightarrow>
                 (case pushEvent events (event v) (toJSDate sd) (toJSDate ed)
                         calendarId calendarName color None of
                    None \<Rightarrow> events
                  | Some events' \<Rightarrow> events')))"

text \<open>
  The code calls \<^verbatim>\<open>new Date()\<close> twice: \<open>now1\<close> is the reading that becomes the end of
  the range, \<open>now2\<close> the one that becomes its start.
\<close>

definition rangeEndTime :: "timezone \<Rightarrow> int \<Rightarrow> int" where
  "rangeEndTime tz now1 = setDate tz now1 (getDate tz now1 + RECURRENCE_EXPAND_DAYS_FUTURE)"

definition rangeStartTime :: "timezone \<Rightarrow> int \<Rightarrow> int" where
  "rangeStartTime tz now2 = setDate tz now2 (getDate tz now2 - RECURRENCE_EXPAND_DAYS_PAST)"

definition parseICSEvents ::
  "timezone \<Rightarrow> int \<Rightarrow> int \<Rightarrow> component \<Rightarrow> jsstring \<Rightarrow> jsstring \<Rightarrow> jsstring
     \<Rightarrow> CalendarEvent list" where
  "parseICSEvents tz now1 now2 vcal calendarId calendarName color =
     (case vcal of
        BrokenComponent \<Rightarrow> []
      | Component vevents \<Rightarrow>
          fold (parseVEvent (rangeStartTime tz now2) (rangeEndTime tz now1)
                  calendarId calendarName color) vevents [])"

text \<open>\<^verbatim>\<open>s.replace(/\s+/g, ' ')\<close>\<close>

function collapseSpace :: "jsstring \<Rightarrow> jsstring" where
  "collapseSpace [] = []"
| "collapseSpace (c # cs) =
     (if isWhiteSpace c then 32 # collapseSpace (dropWhile isWhiteSpace cs)
      else c # collapseSpace cs)"
  by pat_completeness auto
termination
  by (relation "measure length") (auto simp: length_dropWhile_le less_Suc_eq_le)

text \<open>The message of the error that \<^verbatim>\<open>parseICS\<close> throws for a text that is no calendar.\<close>

definition notCalendarMessage :: "jsstring \<Rightarrow> jsstring" where
  "notCalendarMessage normalized =
     (let preview = collapseSpace (take 200 normalized)
      in js ''Response is not a calendar (expected BEGIN:VCALENDAR). '' @
         (case preview of
            c # _ \<Rightarrow> if c = 60 then js ''Server may have returned HTML.'' else []
          | [] \<Rightarrow> []) @
         js '' Preview: '' @
         (if take 80 preview = [] then js ''(empty)'' else take 80 preview))"

text \<open>
  \<^verbatim>\<open>parseICS\<close>: \<open>Inl\<close> carries the message of the thrown \<^verbatim>\<open>Error\<close>. \<open>icalParse\<close> stands
  for \<^verbatim>\<open>ICAL.parse\<close> followed by \<^verbatim>\<open>new ICAL.Component\<close>; \<open>Inl\<close> is the message of the
  exception of \<^verbatim>\<open>ICAL.parse\<close>.
\<close>

definition parseICS ::
  "timezone \<Rightarrow> int \<Rightarrow> int \<Rightarrow> (jsstring \<Rightarrow> jsstring + component)
     \<Rightarrow> jsstring \<Rightarrow> jsstring \<Rightarrow> jsstring \<Rightarrow> jsstring \<Rightarrow> jsstring + CalendarEvent list" where
  "parseICS tz now1 now2 icalParse icsText calendarId calendarName color =
     (let normalized = normalizeICSText icsText
      in if \<not> testBeginVCalendar normalized then Inl (notCalendarMessage normalized)
         else (case icalParse normalized of
                 Inl msg \<Rightarrow> Inl (js ''Calendar parse failed: '' @ msg)
               | Inr vcal \<Rightarrow>
                   Inr (parseICSEvents tz now1 now2 vcal calendarId calendarName color)))"

section \<open>Refreshing and merging the feeds (the hook \<^verbatim>\<open>useCalendars\<close>)\<close>

text \<open>
  \<^verbatim>\<open>CalendarConfig\<close>; the optional \<^verbatim>\<open>refreshMinutes\<close>, which only the timers read, is
  left out.
\<close>

record CalendarConfig =
  cfg_id :: jsstring
  cfg_name :: jsstring
  cfg_url :: jsstring
  cfg_color :: jsstring

text \<open>
  A plain object used as a dictionary (\<^verbatim>\<open>Record<string, CalendarEvent[]>\<close>): its own
  properties in the order of their creation. Properties inherited from
  \<^verbatim>\<open>Object.prototype\<close> are outside the model.
\<close>

type_synonym 'v jsobj = "(jsstring \<times> 'v) list"

definition objGet :: "'v jsobj \<Rightarrow> jsstring \<Rightarrow> 'v option" where
  "objGet obj k = map_of obj k"

definition objSet :: "'v jsobj \<Rightarrow> jsstring \<Rightarrow> 'v \<Rightarrow> 'v jsobj" where
  "objSet obj k v =
     (if k \<in> fst ` set obj then map (\<lambda>(k', v'). if k' = k then (k', v) else (k', v')) obj
      else obj @ [(k, v)])"

text \<open>
  \<^verbatim>\<open>Object.values\<close> lists the properties whose key is an array index (a canonical
  decimal numeral below \<open>2\<^sup>3\<^sup>2 - 1\<close>) first, in ascending numeric order, and then the
  other properties in the order of their creation.
\<close>

definition digitsValue :: "jsstring \<Rightarrow> nat" where
  "digitsValue k = foldl (\<lambda>n c. 10 * n + (c - 48)) 0 k"

definition isArrayIndex :: "jsstring \<Rightarrow> bool" where
  "isArrayIndex k \<longleftrightarrow>
     k \<noteq> [] \<and> list_all (\<lambda>c. 48 \<le> c \<and> c \<le> 57) k \<and> (k = [48] \<or> hd k \<noteq> 48) \<and>
     digitsValue k < 4294967295"

definition objectValues :: "'v jsobj \<Rightarrow> 'v list" where
  "objectValues obj =
     map snd (sort_key (\<lambda>(k, v). digitsValue k) (filter (\<lambda>(k, v). isArrayIndex k) obj) @
              filter (\<lambda>(k, v). \<not> isArrayIndex k) obj)"

text \<open>
  The answer of the relay \<^verbatim>\<open>/api/ical\<close> to a request for a feed: \<^verbatim>\<open>fetch\<close> rejects, or a
  response with its \<^verbatim>\<open>ok\<close> flag, its status and its body.
\<close>

datatype http_result = NetworkError jsstring | Response bool nat jsstring

text \<open>
  What one call of \<^verbatim>\<open>fetchOneCalendar\<close> sees of the world: the relay, the library's
  parser, the local time zone and the two readings of the clock.
\<close>

record environment =
  env_fetch :: "jsstring \<Rightarrow> http_result"
  env_parse :: "jsstring \<Rightarrow> jsstring + component"
  env_zone :: timezone
  env_now1 :: int
  env_now2 :: int

definition fetchOneCalendar :: "environment \<Rightarrow> CalendarConfig \<Rightarrow> jsstring + CalendarEvent list" where
  "fetchOneCalendar env cal =
     (case env_fetch env (cfg_url cal) of
        NetworkError msg \<Rightarrow> Inl msg
      | Response ok status text \<Rightarrow>
          if \<not> ok then Inl (js ''HTTP '' @ numToString (int status))
          else parseICS (env_zone env) (env_now1 env) (env_now2 env) (env_parse env) text
                 (cfg_id cal) (cfg_name cal) (cfg_color cal))"

text \<open>The state of the hook that the refresh writes.\<close>

record calendars_state =
  eventsByCalendar :: "CalendarEvent list jsobj"
  loading :: bool
  error :: "jsstring option"

text \<open>The updater passed to \<^verbatim>\<open>setError\<close> when a feed fails.\<close>

definition failedError :: "jsstring option \<Rightarrow> CalendarConfig \<Rightarrow> jsstring option" where
  "failedError prev cal =
     (case prev of
        None \<Rightarrow> Some (js ''Failed: '' @ cfg_name cal)
      | Some p \<Rightarrow> if p = [] then Some (js ''Failed: '' @ cfg_name cal)
                  else Some (p @ js ''; '' @ cfg_name cal @ js '' failed''))"




text \<open>The refresh of one feed by its timer.\<close>

definition fetchCalendar :: "environment \<Rightarrow> CalendarConfig \<Rightarrow> calendars_state \<Rightarrow> calendars_state" where
  "fetchCalendar env cal st =
     (case fetchOneCalendar env cal of
        Inr parsed \<Rightarrow> st\<lparr>eventsByCalendar := objSet (eventsByCalendar st) (cfg_id cal) parsed\<rparr>
      | Inl e \<Rightarrow> st\<lparr>error := failedError (error st) cal\<rparr>)"

text \<open>\<^verbatim>\<open>Object.values(eventsByCalendar).flat()\<close>\<close>

definition mergedEvents :: "CalendarEvent list jsobj \<Rightarrow> CalendarEvent list" where
  "mergedEvents obj = concat (objectValues obj)"

section \<open>Notions used to state the properties\<close>

text \<open>
  The occurrences that the loop of \<^verbatim>\<open>parseICSEvents\<close> gets from the iterator, from call
  number \<open>cnt\<close> on: the iterator is asked at most \<open>maxOccurrences\<close> times in all, and not
  again once it has ended or raised.
\<close>

function examinedFrom :: "(nat \<Rightarrow> iter_step) \<Rightarrow> nat \<Rightarrow> occurrence list" where
  "examinedFrom iter cnt =
     (if cnt < maxOccurrences then
        (case iter cnt of
           IterOcc occ \<Rightarrow> occ # examinedFrom iter (cnt + 1)
         | IterEnd \<Rightarrow> []
         | IterThrows \<Rightarrow> [])
      else [])"
  by pat_completeness auto
termination
  by (relation "measure (\<lambda>(iter, cnt). maxOccurrences - cnt)") auto

declare examinedFrom.simps [simp del]

text \<open>
  The occurrences up to the first one after the end of the window, without those before
  its start.
\<close>

definition inWindow :: "int \<Rightarrow> int \<Rightarrow> occurrence list \<Rightarrow> occurrence list" where
  "inWindow rs re occs =
     filter (\<lambda>occ. rs \<le> occTimeMs occ) (takeWhile (\<lambda>occ. occTimeMs occ \<le> re) occs)"

text \<open>
  The event pushed for an occurrence; \<open>None\<close> when reading its details or building the
  event raises.
\<close>

definition occurrenceEvent ::
  "ical_event \<Rightarrow> jsstring \<Rightarrow> jsstring \<Rightarrow> jsstring \<Rightarrow> occurrence \<Rightarrow> CalendarEvent option" where
  "occurrenceEvent ev calendarId calendarName color occ =
     (case occDetails occ of
        None \<Rightarrow> None
      | Some details \<Rightarrow>
          newEvent (case item details of Some it \<Rightarrow> it | None \<Rightarrow> ev)
            (detailsStart details) (detailsEnd details) calendarId calendarName color
            (Some (numToString (occTimeMs occ))))"

text \<open>The events of a list of occurrences, up to the first occurrence that raises.\<close>

fun emitWhile :: "(occurrence \<Rightarrow> CalendarEvent option) \<Rightarrow> occurrence list \<Rightarrow> CalendarEvent list" where
  "emitWhile f [] = []"
| "emitWhile f (occ # occs) = (case f occ of None \<Rightarrow> [] | Some e \<Rightarrow> e # emitWhile f occs)"

section \<open>Example data\<close>

text \<open>
  A zone seven hours behind UTC, and Monday 2024-01-01, 00:00 in that zone
  (2024-01-01T07:00:00Z).
\<close>

definition calgary :: timezone where
  "calgary = fixedZone (- 25200000)"

definition monday :: int where
  "monday = 1704092400000"

definition hour :: int where
  "hour = 3600000"

definition exampleEvent :: "string \<Rightarrow> int \<Rightarrow> int \<Rightarrow> CalendarEvent" where
  "exampleEvent name s e =
     \<lparr> ev_id = js ''cal-'' @ js name, ev_title = js name, ev_start = s, ev_end = e,
       ev_allDay = False, ev_calendarId = js ''cal'', ev_calendarName = js ''Family'',
       ev_color = js ''#58a6ff'', ev_location = None \<rparr>"

text \<open>Saturday 10:00 to 11:00, the day after the fifth day of the week of \<open>monday\<close>.\<close>

definition saturdayEvent :: CalendarEvent where
  "saturdayEvent = exampleEvent ''sat'' (monday + 5 * msPerDay + 10 * hour) (monday + 5 * msPerDay + 11 * hour)"

text \<open>An event of no duration at the start of the window.\<close>

definition zeroAtStart :: CalendarEvent where
  "zeroAtStart = exampleEvent ''zero'' monday monday"

text \<open>Sunday 23:00 to Monday 01:00.\<close>

definition crossingEvent :: CalendarEvent where
  "crossingEvent = exampleEvent ''cross'' (monday - hour) (monday + hour)"

text \<open>Sunday 20:00 to Tuesday 06:00.\<close>

definition sundayToTuesday :: CalendarEvent where
  "sundayToTuesday = exampleEvent ''trip'' (monday - 4 * hour) (monday + 30 * hour)"

text \<open>Monday 09:00 to 10:00.\<close>

definition mondayEvent :: CalendarEvent where
  "mondayEvent = exampleEvent ''mon'' (monday + 9 * hour) (monday + 10 * hour)"

definition weekKeys :: "jsstring list" where
  "weekKeys = [js ''2024-01-01'', js ''2024-01-02'', js ''2024-01-03'', js ''2024-01-04'',
               js ''2024-01-05'']"

text \<open>
  A recurring event with a first occurrence on Monday at 09:00. \<open>dailyForever\<close> repeats it
  every day without end; \<open>swimIter\<close> has an occurrence two weeks before Monday, one on
  Monday and one a hundred days later. \<open>mondayNoon\<close> and \<open>laterNow\<close> (600 days after the
  first occurrence) are readings of the clock.
\<close>

definition plainOccurrence :: "int \<Rightarrow> occurrence" where
  "plainOccurrence t =
     \<lparr> occTimeMs = t,
       occDetails = Some \<lparr> detailsStart = t, detailsEnd = t + hour, item = None \<rparr> \<rparr>"

definition recurringEvent :: "string \<Rightarrow> (nat \<Rightarrow> iter_step) \<Rightarrow> vevent" where
  "recurringEvent name iter =
     \<lparr> hasRecurrenceId = False,
       event = \<lparr> summary = Some (js name), uid = Some (js name), location = None,
                 startDate = Some \<lparr> toJSDate = monday + 9 * hour, isDate = False \<rparr> \<rparr>,
       endDate = Some \<lparr> toJSDate = monday + 10 * hour, isDate = False \<rparr>,
       isRecurring = True,
       occurrences = iter \<rparr>"

definition dailyForever :: "nat \<Rightarrow> iter_step" where
  "dailyForever n = IterOcc (plainOccurrence (monday + 9 * hour + int n * msPerDay))"

definition swimIter :: "nat \<Rightarrow> iter_step" where
  "swimIter n =
     (if n = 0 then IterOcc (plainOccurrence (monday - 14 * msPerDay + 9 * hour))
      else if n = 1 then IterOcc (plainOccurrence (monday + 9 * hour))
      else if n = 2 then IterOcc (plainOccurrence (monday + 100 * msPerDay + 9 * hour))
      else IterEnd)"

definition mondayNoon :: int where
  "mondayNoon = monday + 12 * hour"

definition laterNow :: int where
  "laterNow = monday + 9 * hour + 600 * msPerDay"

text \<open>
  A feed cut off before its last line, the same text as it should have arrived, and a
  page of HTML. \<open>exampleParser\<close> accepts only the complete text; its calendar has one
  event, \<open>dentist\<close>, which does not recur.
\<close>

definition truncatedText :: jsstring where
  "truncatedText = js ''BEGIN:VCALENDAR'' @ [13, 10] @ js ''X-WR-CALNAME:Family'' @ [13, 10]"

definition completeText :: jsstring where
  "completeText =
     js ''BEGIN:VCALENDAR'' @ [13, 10] @ js ''X-WR-CALNAME:Family'' @ [13, 10] @
     js ''END:VCALENDAR''"

definition htmlText :: jsstring where
  "htmlText = js ''<html>502</html>''"

definition dentist :: vevent where
  "dentist =
     \<lparr> hasRecurrenceId = False,
       event = \<lparr> summary = Some (js '' Dentist''), uid = Some (js ''appt-7''), location = None,
                 startDate = Some \<lparr> toJSDate = monday + 9 * hour, isDate = False \<rparr> \<rparr>,
       endDate = Some \<lparr> toJSDate = monday + 10 * hour, isDate = False \<rparr>,
       isRecurring = False,
       occurrences = (\<lambda>n. IterEnd) \<rparr>"

definition dentistEvent :: CalendarEvent where
  "dentistEvent =
     \<lparr> ev_id = js ''cal-appt-7'', ev_title = js ''Dentist'', ev_start = monday + 9 * hour,
       ev_end = monday + 10 * hour, ev_allDay = False, ev_calendarId = js ''cal'',
       ev_calendarName = js ''Family'', ev_color = js ''#58a6ff'', ev_location = None \<rparr>"

definition exampleParser :: "jsstring \<Rightarrow> jsstring + component" where
  "exampleParser s =
     (if s = completeText then Inr (Component [dentist]) else Inl (js ''invalid ical body''))"

text \<open>A second event of the feed that carries the \<^verbatim>\<open>UID\<close> of \<open>dentist\<close>, a day later.\<close>

definition dentistTuesday :: vevent where
  "dentistTuesday =
     \<lparr> hasRecurrenceId = False,
       event = \<lparr> summary = Some (js ''Dentist''), uid = Some (js ''appt-7''), location = None,
                 startDate = Some \<lparr> toJSDate = monday + 33 * hour, isDate = False \<rparr> \<rparr>,
       endDate = Some \<lparr> toJSDate = monday + 34 * hour, isDate = False \<rparr>,
       isRecurring = False,
       occurrences = (\<lambda>n. IterEnd) \<rparr>"

definition dentistTuesdayEvent :: CalendarEvent where
  "dentistTuesdayEvent =
     \<lparr> ev_id = js ''cal-appt-7'', ev_title = js ''Dentist'', ev_start = monday + 33 * hour,
       ev_end = monday + 34 * hour, ev_allDay = False, ev_calendarId = js ''cal'',
       ev_calendarName = js ''Family'', ev_color = js ''#58a6ff'', ev_location = None \<rparr>"




definition clubEvent :: CalendarEvent where
  "clubEvent =
     \<lparr> ev_id = js ''club-training'', ev_title = js ''Training'', ev_start = monday + 18 * hour,
       ev_end = monday + 19 * hour, ev_allDay = False, ev_calendarId = js ''club'',
       ev_calendarName = js ''Club'', ev_color = js ''#f85149'', ev_location = None \<rparr>"




section \<open>Facts about the week view\<close>

subsection \<open>The map of day buckets\<close>

lemma mapHas_iff: "mapHas m k \<longleftrightarrow> map_of m k \<noteq> None"
  by (simp add: mapHas_def map_of_eq_None_iff)

lemma mapSet_keys:
  "map fst (mapSet m k v) = (if mapHas m k then map fst m else map fst m @ [k])"
proof -
  have "map fst (map (\<lambda>(k', v'). if k' = k then (k', v) else (k', v')) m) = map fst m"
    by (induction m) auto
  then show ?thesis by (simp add: mapSet_def)
qed

lemma map_of_replace:
  "map_of (map (\<lambda>(k', v'). if k' = k then (k', v) else (k', v')) m) k' =
     (if k' = k then (if map_of m k = None then None else Some v) else map_of m k')"
  by (induction m) auto

lemma map_of_mapSet: "map_of (mapSet m k v) k' = (if k' = k then Some v else map_of m k')"
  by (cases "map_of m k") (auto simp: mapSet_def map_of_replace mapHas_iff map_add_def split: option.splits)

lemma set_mapSet_keys: "set (map fst (mapSet m k v)) = insert k (set (map fst m))"
  unfolding mapSet_keys by (auto simp: mapHas_def)

lemma distinct_mapSet_keys: "distinct (map fst m) \<Longrightarrow> distinct (map fst (mapSet m k v))"
  unfolding mapSet_keys by (auto simp: mapHas_def)

lemma initKeys_keys:
  "set (map fst (fold (\<lambda>key m. mapSet m key []) keys m0)) = set (map fst m0) \<union> set keys"
proof (induction keys arbitrary: m0)
  case Nil
  show ?case by simp
next
  case (Cons a keys)
  show ?case
    unfolding fold_simps Cons.IH set_mapSet_keys by auto
qed

lemma initKeys_distinct:
  "distinct (map fst m0) \<Longrightarrow> distinct (map fst (fold (\<lambda>key m. mapSet m key []) keys m0))"
  by (induction keys arbitrary: m0) (simp_all add: distinct_mapSet_keys)

lemma initKeys_map_of:
  "map_of (fold (\<lambda>key m. mapSet m key []) keys m0) k =
     (if k \<in> set keys then Some [] else map_of m0 k)"
  by (induction keys arbitrary: m0) (simp_all add: map_of_mapSet)

lemma groupStep_keys: "map fst (groupStep tz ev m) = map fst m"
  by (simp add: groupStep_def Let_def mapSet_keys split: option.splits)

lemma groupStep_map_of:
  "map_of (groupStep tz ev m) k =
     (case map_of m k of
        None \<Rightarrow> None
      | Some arr \<Rightarrow> Some (if toLocalDateKey tz (ev_start ev) = k then arr @ [ev] else arr))"
  by (simp add: groupStep_def Let_def map_of_mapSet mapHas_iff mapGet_def split: option.splits)

lemma groupLoop_keys: "map fst (fold (groupStep tz) evs m) = map fst m"
  by (induction evs arbitrary: m) (simp_all add: groupStep_keys)

lemma groupLoop_map_of:
  "map_of (fold (groupStep tz) evs m) k =
     (case map_of m k of
        None \<Rightarrow> None
      | Some arr \<Rightarrow> Some (arr @ filter (\<lambda>ev. toLocalDateKey tz (ev_start ev) = k) evs))"
  by (induction evs arbitrary: m) (simp_all add: groupStep_map_of split: option.splits)

lemma map_of_sorted_values:
  "map_of (map (\<lambda>(k, arr). (k, f arr)) m) k = map_option f (map_of m k)"
  by (induction m) auto

lemma groupEventsByDay_keys_eq:
  "map fst (groupEventsByDay tz events dateKeys) =
     map fst (fold (\<lambda>key m. mapSet m key ([] :: CalendarEvent list)) dateKeys [])"
proof -
  have "map fst (map (\<lambda>(k, arr). (k, sortByStart arr)) m) = map fst m" for m :: "CalendarEvent list jsmap"
    by (induction m) auto
  then show ?thesis
    unfolding groupEventsByDay_def Let_def groupLoop_keys by (simp only: groupLoop_keys)
qed

lemma groupEventsByDay_keys: "set (map fst (groupEventsByDay tz events dateKeys)) = set dateKeys"
  unfolding groupEventsByDay_keys_eq initKeys_keys by simp

lemma groupEventsByDay_distinct: "distinct (map fst (groupEventsByDay tz events dateKeys))"
  unfolding groupEventsByDay_keys_eq by (rule initKeys_distinct) simp

lemma groupEventsByDay_bucket:
  "mapGet (groupEventsByDay tz events dateKeys) k =
     (if k \<in> set dateKeys
      then Some (sortByStart (filter (\<lambda>ev. toLocalDateKey tz (ev_start ev) = k) events))
      else None)"
  by (simp add: groupEventsByDay_def Let_def mapGet_def map_of_sorted_values groupLoop_map_of
        initKeys_map_of)

lemma set_sortByStart: "set (sortByStart arr) = set arr"
  by (simp add: sortByStart_def)

subsection \<open>Dates in a zone with a fixed offset\<close>

lemma setDate_getDate:
  "setDate tz t (getDate tz t + k) =
     UTC tz (MakeDate (Day (LocalTime tz t) + k) (TimeWithinDay (LocalTime tz t)))"
  by (simp add: setDate_def getDate_def Let_def)

lemma MakeDate_shift: "MakeDate (Day t + k) (TimeWithinDay t) = t + k * msPerDay"
  by (simp add: MakeDate_def Day_def TimeWithinDay_def algebra_simps)

lemma setDate_getDate_fixedZone:
  "setDate (fixedZone off) t (getDate (fixedZone off) t + k) = t + k * msPerDay"
  by (simp add: setDate_getDate MakeDate_shift) (simp add: UTC_def LocalTime_def fixedZone_def)

lemma rangeEndTime_fixedZone: "rangeEndTime (fixedZone off) now = now + 90 * msPerDay"
  by (simp add: rangeEndTime_def RECURRENCE_EXPAND_DAYS_FUTURE_def setDate_getDate_fixedZone)

lemma rangeStartTime_fixedZone: "rangeStartTime (fixedZone off) now = now - 7 * msPerDay"
  using setDate_getDate_fixedZone[of off now "-7"]
  by (simp add: rangeStartTime_def RECURRENCE_EXPAND_DAYS_PAST_def)

lemma startOfDay_fixedZone:
  "startOfDay (fixedZone off) t = Day (t + off) * msPerDay - off"
  by (simp add: startOfDay_def setHours_def Let_def UTC_def LocalTime_def fixedZone_def
        MakeDate_def MakeTime_def)

lemma setHours_fixedZone:
  "setHours (fixedZone off) t h m s ms = Day (t + off) * msPerDay + MakeTime h m s ms - off"
  by (simp add: setHours_def Let_def UTC_def LocalTime_def fixedZone_def MakeDate_def)

lemma endOfWeekdays_fixedZone:
  "endOfWeekdays (fixedZone off) (startOfDay (fixedZone off) t) =
     startOfDay (fixedZone off) t + 6 * msPerDay - 1"
proof -
  define s where "s = startOfDay (fixedZone off) t"
  have s: "s = Day (t + off) * msPerDay - off"
    unfolding s_def by (rule startOfDay_fixedZone)
  have 1: "setDate (fixedZone off) s (getDate (fixedZone off) s + WEEKDAY_COUNT) = s + 5 * msPerDay"
    by (simp add: setDate_getDate_fixedZone WEEKDAY_COUNT_def)
  have 2: "Day (s + 5 * msPerDay + off) = Day (t + off) + 5"
    unfolding s by (simp add: Day_def msPerDay_def)
  have "endOfWeekdays (fixedZone off) s = (Day (t + off) + 5) * msPerDay + MakeTime 23 59 59 999 - off"
    unfolding endOfWeekdays_def Let_def 1 setHours_fixedZone 2 ..
  also have "\<dots> = s + 6 * msPerDay - 1"
    unfolding s by (simp add: MakeTime_def msPerDay_def)
  finally show ?thesis unfolding s_def .
qed

subsection \<open>The example week\<close>

lemma civil_examples:
  "civilFromDays 19722 = (2023, 12, 31)"
  "civilFromDays 19723 = (2024, 1, 1)"
  "civilFromDays 19724 = (2024, 1, 2)"
  "civilFromDays 19725 = (2024, 1, 3)"
  "civilFromDays 19726 = (2024, 1, 4)"
  "civilFromDays 19727 = (2024, 1, 5)"
  "civilFromDays 19728 = (2024, 1, 6)"
  by (simp_all add: civilFromDays_def Let_def cong: let_weak_cong)

lemma natToDigits_small: "n < 10 \<Longrightarrow> natToDigits n = [48 + n]"
  by (subst natToDigits.simps) simp

lemma natToDigits_step: "10 \<le> n \<Longrightarrow> natToDigits n = natToDigits (n div 10) @ [48 + n mod 10]"
  by (subst natToDigits.simps) simp

lemma toLocalDateKey_fixedZone:
  "toLocalDateKey (fixedZone off) t =
     (case civilFromDays (Day (t + off)) of
        (y, m, d) \<Rightarrow> numToString y @ js ''-'' @ padStart 2 48 (numToString m) @ js ''-'' @
                     padStart 2 48 (numToString d))"
  by (simp add: toLocalDateKey_def getFullYear_def getMonth_def getDate_def YearFromTime_def
        MonthFromTime_def DateFromTime_def LocalTime_def fixedZone_def Let_def split: prod.splits)

lemma getWeekDateKeys_fixedZone:
  "getWeekDateKeys (fixedZone off) w =
     map (\<lambda>i. toLocalDateKey (fixedZone off) (startOfDay (fixedZone off) w + i * msPerDay))
       [0, 1, 2, 3, 4]"
proof -
  have "[0 .. WEEKDAY_COUNT - 1] = [0, 1, 2, 3, 4]"
    by (simp add: WEEKDAY_COUNT_def upto.simps)
  then show ?thesis
    by (simp add: getWeekDateKeys_def Let_def setDate_getDate_fixedZone startOfDay_def)
qed

lemma startOfDay_monday: "startOfDay calgary monday = monday"
  by (simp add: calgary_def startOfDay_fixedZone monday_def Day_def msPerDay_def)

lemma endOfWeekdays_monday: "endOfWeekdays calgary (startOfDay calgary monday) = monday + 6 * msPerDay - 1"
  using endOfWeekdays_fixedZone[of "- 25200000" monday] startOfDay_monday
  by (simp add: calgary_def)

lemma days_examples:
  "Day (monday - 4 * hour + - 25200000) = 19722"
  "Day (monday + 9 * hour + - 25200000) = 19723"
  "Day (monday + 0 * msPerDay + - 25200000) = 19723"
  "Day (monday + 1 * msPerDay + - 25200000) = 19724"
  "Day (monday + 2 * msPerDay + - 25200000) = 19725"
  "Day (monday + 3 * msPerDay + - 25200000) = 19726"
  "Day (monday + 4 * msPerDay + - 25200000) = 19727"
  "Day (monday + 5 * msPerDay + 10 * hour + - 25200000) = 19728"
  "Day (monday + 6 * msPerDay - 1 + - 25200000) = 19728"
  by (simp_all add: monday_def hour_def Day_def msPerDay_def)

lemma numToString_examples:
  "numToString 2023 = js ''2023''" "numToString 2024 = js ''2024''"
  "numToString 12 = js ''12''" "numToString 31 = js ''31''"
  "numToString 1 = js ''1''" "numToString 2 = js ''2''" "numToString 3 = js ''3''"
  "numToString 4 = js ''4''" "numToString 5 = js ''5''" "numToString 6 = js ''6''"
  by (simp_all add: numToString_def natToDigits_small natToDigits_step js_def)

lemma keys_examples:
  "toLocalDateKey calgary (monday - 4 * hour) = js ''2023-12-31''"
  "toLocalDateKey calgary (monday + 9 * hour) = js ''2024-01-01''"
  "toLocalDateKey calgary (monday + 0 * msPerDay) = js ''2024-01-01''"
  "toLocalDateKey calgary (monday + 1 * msPerDay) = js ''2024-01-02''"
  "toLocalDateKey calgary (monday + 2 * msPerDay) = js ''2024-01-03''"
  "toLocalDateKey calgary (monday + 3 * msPerDay) = js ''2024-01-04''"
  "toLocalDateKey calgary (monday + 4 * msPerDay) = js ''2024-01-05''"
  "toLocalDateKey calgary (monday + 5 * msPerDay + 10 * hour) = js ''2024-01-06''"
  "toLocalDateKey calgary (monday + 6 * msPerDay - 1) = js ''2024-01-06''"
  unfolding calgary_def toLocalDateKey_fixedZone days_examples civil_examples
  by (simp_all add: numToString_examples padStart_def js_def)

lemma getWeekDateKeys_monday: "getWeekDateKeys calgary monday = weekKeys"
proof -
  have "getWeekDateKeys calgary monday =
     map (\<lambda>i. toLocalDateKey calgary (monday + i * msPerDay)) [0, 1, 2, 3, 4]"
    using getWeekDateKeys_fixedZone[of "- 25200000" monday] startOfDay_monday
    by (simp add: calgary_def)
  also have "\<dots> = weekKeys"
    unfolding list.map keys_examples weekKeys_def ..
  finally show ?thesis .
qed

lemma example_starts:
  "ev_start sundayToTuesday = monday - 4 * hour" "ev_end sundayToTuesday = monday + 30 * hour"
  "ev_start mondayEvent = monday + 9 * hour" "ev_end mondayEvent = monday + 10 * hour"
  "ev_start saturdayEvent = monday + 5 * msPerDay + 10 * hour"
  "ev_end saturdayEvent = monday + 5 * msPerDay + 11 * hour"
  "ev_start zeroAtStart = monday" "ev_end zeroAtStart = monday"
  "ev_start crossingEvent = monday - hour" "ev_end crossingEvent = monday + hour"
  by (simp_all add: sundayToTuesday_def mondayEvent_def saturdayEvent_def zeroAtStart_def
        crossingEvent_def exampleEvent_def)

lemma filterEventsForWeek_monday:
  "filterEventsForWeek calgary events monday =
     filter (\<lambda>ev. ev_end ev > monday \<and> ev_start ev < monday + 6 * msPerDay - 1) events"
  by (simp add: filterEventsForWeek_def Let_def endOfWeekdays_monday startOfDay_monday
        endOfWeekdays_monday[unfolded startOfDay_monday])

section \<open>The week view: claims\<close>

text \<open>
  Claim C10. For every list of events and every list of date keys, the map returned by
  \<^verbatim>\<open>groupEventsByDay\<close> has exactly the given keys, each once; every requested key is
  mapped to an array, which holds the input events whose start has that local date key,
  sorted by start (so it is empty when no event starts on that day); and every element of
  a bucket is an input event whose start has the key of the bucket.
\<close>

theorem groupEventsByDay_buckets:
  "set (map fst (groupEventsByDay tz events dateKeys)) = set dateKeys \<and>
   distinct (map fst (groupEventsByDay tz events dateKeys)) \<and>
   (\<forall>k. mapGet (groupEventsByDay tz events dateKeys) k =
      (if k \<in> set dateKeys
       then Some (sortByStart (filter (\<lambda>ev. toLocalDateKey tz (ev_start ev) = k) events))
       else None)) \<and>
   (\<forall>k b ev. mapGet (groupEventsByDay tz events dateKeys) k = Some b \<and> ev \<in> set b
      \<longrightarrow> k \<in> set dateKeys \<and> ev \<in> set events \<and> toLocalDateKey tz (ev_start ev) = k)"
proof (intro conjI allI impI)
  fix k b ev
  assume h: "mapGet (groupEventsByDay tz events dateKeys) k = Some b \<and> ev \<in> set b"
  then have k: "k \<in> set dateKeys"
    by (simp add: groupEventsByDay_bucket split: if_splits)
  with h have "ev \<in> set (sortByStart (filter (\<lambda>ev. toLocalDateKey tz (ev_start ev) = k) events))"
    by (auto simp add: groupEventsByDay_bucket)
  then have "ev \<in> set events \<and> toLocalDateKey tz (ev_start ev) = k"
    by (simp add: set_sortByStart)
  with k show "k \<in> set dateKeys" "ev \<in> set events" "toLocalDateKey tz (ev_start ev) = k"
    by simp_all
next
  show "set (map fst (groupEventsByDay tz events dateKeys)) = set dateKeys"
    by (rule groupEventsByDay_keys)
next
  show "distinct (map fst (groupEventsByDay tz events dateKeys))"
    by (rule groupEventsByDay_distinct)
next
  fix k
  show "mapGet (groupEventsByDay tz events dateKeys) k =
      (if k \<in> set dateKeys
       then Some (sortByStart (filter (\<lambda>ev. toLocalDateKey tz (ev_start ev) = k) events))
       else None)"
    by (rule groupEventsByDay_bucket)
qed

theorem groupEventsByDay_buckets_witness:
  "map fst (groupEventsByDay calgary [sundayToTuesday, mondayEvent] weekKeys) = weekKeys \<and>
   mapGet (groupEventsByDay calgary [sundayToTuesday, mondayEvent] weekKeys) (js ''2024-01-01'') = Some [mondayEvent] \<and>
   mapGet (groupEventsByDay calgary [sundayToTuesday, mondayEvent] weekKeys) (js ''2024-01-02'') = Some [] \<and>
   mapGet (groupEventsByDay calgary [sundayToTuesday, mondayEvent] weekKeys) (js ''2023-12-31'') = None \<and>
   toLocalDateKey calgary (ev_start mondayEvent) = js ''2024-01-01''"
proof -
  have d: "js ''2023-12-31'' \<noteq> js ''2024-01-01''" "js ''2023-12-31'' \<noteq> js ''2024-01-02''"
     "js ''2024-01-01'' \<noteq> js ''2024-01-02''"
    by (simp_all add: js_def)
  have m: "map fst (groupEventsByDay calgary [sundayToTuesday, mondayEvent] weekKeys) = weekKeys"
    unfolding groupEventsByDay_keys_eq
    by (simp add: weekKeys_def mapSet_def mapHas_def js_def)
  note t = groupEventsByDay_buckets[of calgary "[sundayToTuesday, mondayEvent]" weekKeys]
  from t have g: "mapGet (groupEventsByDay calgary [sundayToTuesday, mondayEvent] weekKeys) k =
      (if k \<in> set weekKeys
       then Some (sortByStart (filter (\<lambda>ev. toLocalDateKey calgary (ev_start ev) = k) [sundayToTuesday, mondayEvent]))
       else None)" for k by blast
  have in1: "js ''2024-01-01'' \<in> set weekKeys" "js ''2024-01-02'' \<in> set weekKeys"
    "js ''2023-12-31'' \<notin> set weekKeys"
    by (simp_all add: weekKeys_def js_def)
  have 1: "mapGet (groupEventsByDay calgary [sundayToTuesday, mondayEvent] weekKeys) (js ''2024-01-01'') = Some [mondayEvent]"
    unfolding g by (simp add: in1 example_starts keys_examples d sortByStart_def)
  have 2: "mapGet (groupEventsByDay calgary [sundayToTuesday, mondayEvent] weekKeys) (js ''2024-01-02'') = Some []"
    unfolding g by (simp add: in1 example_starts keys_examples d sortByStart_def)
  have 3: "mapGet (groupEventsByDay calgary [sundayToTuesday, mondayEvent] weekKeys) (js ''2023-12-31'') = None"
    unfolding g by (simp add: in1)
  show ?thesis
    by (simp add: 1 2 3 m example_starts keys_examples)
qed

text \<open>
  Claim C3. An event that passes the week filter and whose start has a local date key
  that is not among the requested keys stays in the filtered list and is in no bucket of
  \<^verbatim>\<open>groupEventsByDay\<close>. The witness is the event from Sunday 20:00 to Tuesday 06:00 in
  the week from Monday to Friday.
\<close>

theorem group_drops_start_outside_keys:
  assumes "ev \<in> set (filterEventsForWeek tz events weekStart)"
      and "toLocalDateKey tz (ev_start ev) \<notin> set dateKeys"
  shows "ev \<in> set (filterEventsForWeek tz events weekStart) \<and>
         (\<forall>k b. mapGet (groupEventsByDay tz (filterEventsForWeek tz events weekStart) dateKeys) k = Some b
            \<longrightarrow> ev \<notin> set b)"
proof (intro conjI allI impI)
  show "ev \<in> set (filterEventsForWeek tz events weekStart)" by (rule assms(1))
next
  fix k b
  assume h: "mapGet (groupEventsByDay tz (filterEventsForWeek tz events weekStart) dateKeys) k = Some b"
  show "ev \<notin> set b"
  proof
    assume "ev \<in> set b"
    with h have "k \<in> set dateKeys \<and> toLocalDateKey tz (ev_start ev) = k"
      by (auto simp: groupEventsByDay_bucket set_sortByStart split: if_splits)
    with assms(2) show False by simp
  qed
qed

theorem group_drops_start_outside_keys_witness:
  "sundayToTuesday \<in> set (filterEventsForWeek calgary [sundayToTuesday, mondayEvent] monday) \<and>
   toLocalDateKey calgary (ev_start sundayToTuesday) = js ''2023-12-31'' \<and>
   js ''2023-12-31'' \<notin> set (getWeekDateKeys calgary monday) \<and>
   mapGet (groupEventsByDay calgary (filterEventsForWeek calgary [sundayToTuesday, mondayEvent] monday)
             (getWeekDateKeys calgary monday)) (js ''2024-01-01'') = Some [mondayEvent] \<and>
   sundayToTuesday \<notin> set [mondayEvent]"
proof -
  have f: "filterEventsForWeek calgary [sundayToTuesday, mondayEvent] monday = [sundayToTuesday, mondayEvent]"
    by (simp add: filterEventsForWeek_monday example_starts hour_def msPerDay_def)
  have k: "toLocalDateKey calgary (ev_start sundayToTuesday) = js ''2023-12-31''"
    by (simp add: example_starts keys_examples)
  have n: "js ''2023-12-31'' \<notin> set (getWeekDateKeys calgary monday)"
    by (simp add: getWeekDateKeys_monday weekKeys_def js_def)
  have m: "sundayToTuesday \<in> set (filterEventsForWeek calgary [sundayToTuesday, mondayEvent] monday)"
    by (simp add: f)
  have d: "js ''2023-12-31'' \<noteq> js ''2024-01-01''"
    by (simp add: js_def)
  have b: "mapGet (groupEventsByDay calgary (filterEventsForWeek calgary [sundayToTuesday, mondayEvent] monday)
             (getWeekDateKeys calgary monday)) (js ''2024-01-01'') = Some [mondayEvent]"
    unfolding groupEventsByDay_bucket f getWeekDateKeys_monday
    by (simp add: example_starts keys_examples d sortByStart_def weekKeys_def)
  from group_drops_start_outside_keys[OF m, of "getWeekDateKeys calgary monday"] k n
  have "\<forall>k b. mapGet (groupEventsByDay calgary (filterEventsForWeek calgary [sundayToTuesday, mondayEvent] monday)
             (getWeekDateKeys calgary monday)) k = Some b \<longrightarrow> sundayToTuesday \<notin> set b"
    by simp
  with b have "sundayToTuesday \<notin> set [mondayEvent]" by blast
  with m k n b show ?thesis by simp
qed

text \<open>
  Claim C2. The claim puts the end of the window at 23:59:59.999 of the fifth day.
  \<^verbatim>\<open>endOfWeekdays\<close> adds \<^verbatim>\<open>WEEKDAY_COUNT\<close> = 5 days to the first day and then moves to
  the end of that day, which is the sixth day: for the week of Monday 2024-01-01 the
  window ends on Saturday 2024-01-06, and an event on Saturday from 10:00 to 11:00 is
  kept, although the date keys of the week end with Friday. The two boundary cases of the
  claim hold: the event of no duration at the start of the window is dropped and the
  event from Sunday 23:00 to Monday 01:00 is kept.
\<close>

theorem filterEventsForWeek_keeps_saturday:
  "getWeekDateKeys calgary monday = weekKeys \<and>
   endOfWeekdays calgary (startOfDay calgary monday) = monday + 6 * msPerDay - 1 \<and>
   toLocalDateKey calgary (endOfWeekdays calgary (startOfDay calgary monday)) = js ''2024-01-06'' \<and>
   toLocalDateKey calgary (ev_start saturdayEvent) = js ''2024-01-06'' \<and>
   filterEventsForWeek calgary [saturdayEvent, zeroAtStart, crossingEvent] monday =
     [saturdayEvent, crossingEvent]"
proof -
  have "filterEventsForWeek calgary [saturdayEvent, zeroAtStart, crossingEvent] monday =
     [saturdayEvent, crossingEvent]"
    by (simp add: filterEventsForWeek_monday example_starts hour_def msPerDay_def)
  then show ?thesis
    by (simp add: getWeekDateKeys_monday endOfWeekdays_monday keys_examples example_starts)
qed

section \<open>Parsing a feed: facts\<close>

subsection \<open>The loop over the occurrences of a recurring event\<close>

lemma expandLoop_examined:
  "expandLoop ev iter rs re cid cname color cnt events =
     events @ emitWhile (occurrenceEvent ev cid cname color) (inWindow rs re (examinedFrom iter cnt))"
proof (induction ev iter rs re cid cname color cnt events rule: expandLoop.induct)
  case (1 ev iter rs re cid cname color cnt events)
  show ?case
  proof (cases "cnt < maxOccurrences")
    case False
    then show ?thesis
      by (subst expandLoop.simps, subst examinedFrom.simps) (simp add: inWindow_def)
  next
    case lt: True
    show ?thesis
    proof (cases "iter cnt")
      case IterEnd
      with lt show ?thesis
        by (subst expandLoop.simps, subst examinedFrom.simps) (simp add: inWindow_def)
    next
      case IterThrows
      with lt show ?thesis
        by (subst expandLoop.simps, subst examinedFrom.simps) (simp add: inWindow_def)
    next
      case (IterOcc occ)
      show ?thesis
      proof (cases "occTimeMs occ > re")
        case True
        with lt IterOcc show ?thesis
          by (subst expandLoop.simps, subst examinedFrom.simps) (simp add: inWindow_def)
      next
        case le: False
        show ?thesis
        proof (cases "occTimeMs occ < rs")
          case True
          with lt IterOcc le "1.IH"(1)[of occ] show ?thesis
            by (subst expandLoop.simps, subst examinedFrom.simps) (simp add: inWindow_def)
        next
          case ge: False
          show ?thesis
          proof (cases "occurrenceEvent ev cid cname color occ")
            case None
            with lt IterOcc le ge show ?thesis
              by (subst expandLoop.simps, subst examinedFrom.simps)
                 (auto simp: inWindow_def occurrenceEvent_def pushEvent_def split: option.splits)
          next
            case (Some e)
            then obtain details where d: "occDetails occ = Some details"
              and e: "newEvent (case item details of Some it \<Rightarrow> it | None \<Rightarrow> ev)
                        (detailsStart details) (detailsEnd details) cid cname color
                        (Some (numToString (occTimeMs occ))) = Some e"
              by (auto simp: occurrenceEvent_def split: option.splits)
            have p: "pushEvent events (case item details of Some it \<Rightarrow> it | None \<Rightarrow> ev)
                        (detailsStart details) (detailsEnd details) cid cname color
                        (Some (numToString (occTimeMs occ))) = Some (events @ [e])"
              by (simp add: pushEvent_def e)
            from lt IterOcc le ge d p "1.IH"(2)[of occ details "events @ [e]"] Some show ?thesis
              by (subst expandLoop.simps, subst examinedFrom.simps) (simp add: inWindow_def)
          qed
        qed
      qed
    qed
  qed
qed

lemma length_examinedFrom: "length (examinedFrom iter cnt) \<le> maxOccurrences - cnt"
proof (induction iter cnt rule: examinedFrom.induct)
  case (1 iter cnt)
  show ?case
  proof (cases "cnt < maxOccurrences")
    case False
    then show ?thesis by (subst examinedFrom.simps) simp
  next
    case True
    then show ?thesis
      using "1.IH" by (subst examinedFrom.simps) (auto split: iter_step.splits)
  qed
qed

lemma examinedFrom_nth:
  "i < length (examinedFrom iter cnt) \<Longrightarrow> iter (cnt + i) = IterOcc (examinedFrom iter cnt ! i)"
proof (induction iter cnt arbitrary: i rule: examinedFrom.induct)
  case (1 iter cnt)
  show ?case
  proof (cases "cnt < maxOccurrences")
    case False
    with "1.prems" show ?thesis by (subst (asm) examinedFrom.simps) simp
  next
    case lt: True
    show ?thesis
    proof (cases "iter cnt")
      case (IterOcc occ)
      with lt have eq: "examinedFrom iter cnt = occ # examinedFrom iter (cnt + 1)"
        by (subst examinedFrom.simps) simp
      show ?thesis
      proof (cases i)
        case 0
        with eq IterOcc show ?thesis by simp
      next
        case (Suc j)
        with "1.prems" eq have "j < length (examinedFrom iter (cnt + 1))" by simp
        from "1.IH"[OF lt IterOcc this] Suc eq show ?thesis by simp
      qed
    next
      case IterEnd
      with lt "1.prems" show ?thesis by (subst (asm) examinedFrom.simps) simp
    next
      case IterThrows
      with lt "1.prems" show ?thesis by (subst (asm) examinedFrom.simps) simp
    qed
  qed
qed

lemma examinedFrom_set:
  assumes "occ \<in> set (examinedFrom iter cnt)"
  shows "\<exists>j. cnt \<le> j \<and> j < maxOccurrences \<and> iter j = IterOcc occ"
proof -
  from assms obtain i where i: "i < length (examinedFrom iter cnt)" "examinedFrom iter cnt ! i = occ"
    by (auto simp: in_set_conv_nth)
  from i(1) length_examinedFrom[of iter cnt] have "cnt + i < maxOccurrences" by simp
  with examinedFrom_nth[OF i(1)] i(2) show ?thesis
    by (intro exI[of _ "cnt + i"]) simp
qed

lemma length_emitWhile: "length (emitWhile f occs) \<le> length occs"
  by (induction occs) (auto split: option.splits)

lemma length_inWindow: "length (inWindow rs re occs) \<le> length occs"
  unfolding inWindow_def
  by (rule order_trans[OF length_filter_le]) (simp add: length_takeWhile_le)

lemma set_inWindow: "occ \<in> set (inWindow rs re occs) \<Longrightarrow> rs \<le> occTimeMs occ \<and> occTimeMs occ \<le> re"
  unfolding inWindow_def by (auto dest: set_takeWhileD)

lemma inWindow_all_before:
  "(\<And>occ. occ \<in> set occs \<Longrightarrow> occTimeMs occ < rs) \<Longrightarrow> inWindow rs re occs = []"
  unfolding inWindow_def by (fastforce simp: filter_empty_conv dest: set_takeWhileD)

lemma parseVEvent_recurring:
  "\<not> hasRecurrenceId v \<Longrightarrow> startDate (event v) = Some sd \<Longrightarrow> isRecurring v \<Longrightarrow>
     parseVEvent rs re cid cname color v events =
       events @ emitWhile (occurrenceEvent (event v) cid cname color)
                  (inWindow rs re (examinedFrom (occurrences v) 0))"
  by (simp add: parseVEvent_def expandLoop_examined)

lemma parseVEvent_append:
  "parseVEvent rs re cid cname color v events = events @ parseVEvent rs re cid cname color v []"
  by (auto simp: parseVEvent_def expandLoop_examined[of _ _ _ _ _ _ _ _ events] 
      expandLoop_examined[of _ _ _ _ _ _ _ _ "[]"] pushEvent_def split: option.splits)

lemma fold_parseVEvent:
  "fold (parseVEvent rs re cid cname color) vs events =
     events @ concat (map (\<lambda>v. parseVEvent rs re cid cname color v []) vs)"
proof (induction vs arbitrary: events)
  case Nil
  show ?case by simp
next
  case (Cons v vs)
  show ?case
    unfolding fold_simps Cons.IH
    by (subst parseVEvent_append) simp
qed

lemma parseICSEvents_Component:
  "parseICSEvents tz now1 now2 (Component vs) cid cname color =
     concat (map (\<lambda>v. parseVEvent (rangeStartTime tz now2) (rangeEndTime tz now1) cid cname color v []) vs)"
  by (simp add: parseICSEvents_def fold_parseVEvent)

lemma examinedFrom_swimIter:
  "examinedFrom swimIter 0 =
     [plainOccurrence (monday - 14 * msPerDay + 9 * hour), plainOccurrence (monday + 9 * hour),
      plainOccurrence (monday + 100 * msPerDay + 9 * hour)]"
proof -
  have 3: "examinedFrom swimIter (Suc (Suc (Suc 0))) = []"
    by (subst examinedFrom.simps) (simp add: swimIter_def maxOccurrences_def)
  have 2: "examinedFrom swimIter (Suc (Suc 0)) = [plainOccurrence (monday + 100 * msPerDay + 9 * hour)]"
    by (subst examinedFrom.simps) (simp add: swimIter_def maxOccurrences_def 3)
  have 1: "examinedFrom swimIter (Suc 0) = [plainOccurrence (monday + 9 * hour),
      plainOccurrence (monday + 100 * msPerDay + 9 * hour)]"
    by (subst examinedFrom.simps) (simp add: swimIter_def maxOccurrences_def 2)
  show ?thesis
    by (subst examinedFrom.simps) (simp add: swimIter_def maxOccurrences_def 1)
qed

lemma range_mondayNoon:
  "rangeStartTime calgary mondayNoon = mondayNoon - 7 * msPerDay"
  "rangeEndTime calgary mondayNoon = mondayNoon + 90 * msPerDay"
  by (simp_all add: calgary_def rangeStartTime_fixedZone rangeEndTime_fixedZone)

lemma range_laterNow:
  "rangeStartTime calgary laterNow = laterNow - 7 * msPerDay"
  "rangeEndTime calgary laterNow = laterNow + 90 * msPerDay"
  by (simp_all add: calgary_def rangeStartTime_fixedZone rangeEndTime_fixedZone)

lemma numToString_mondayNine: "numToString (monday + 9 * hour) = js ''1704124800000''"
  by (simp add: monday_def hour_def numToString_def natToDigits_small natToDigits_step js_def)

lemma inWindow_swimIter:
  "inWindow (mondayNoon - 7 * msPerDay) (mondayNoon + 90 * msPerDay) (examinedFrom swimIter 0) =
     [plainOccurrence (monday + 9 * hour)]"
  unfolding examinedFrom_swimIter inWindow_def
  by (simp add: plainOccurrence_def mondayNoon_def hour_def msPerDay_def)

section \<open>Parsing a feed: claims\<close>

text \<open>
  Claim C1, as amended. For a recurring \<^verbatim>\<open>VEVENT\<close> the code pushes, after the events
  it already has, the events of these occurrences and no others: of the occurrences that
  the first (at most 500) calls of the iterator return, those before the first one that
  lies after the end of the window \<open>rangeEndTime\<close>, without those that lie before its start
  \<open>rangeStartTime\<close>, and up to the first one for which the library raises. So every
  occurrence pushed lies in the window, at most 500 events are pushed, and the walk ends
  at the first occurrence after the end of the window. Every occurrence the iterator
  returns counts against the 500, also one that is skipped because it lies before the
  window. In a zone with a fixed offset the window is from 7 days before to 90 days after
  the reading of the clock (\<open>rangeStartTime_fixedZone\<close>, \<open>rangeEndTime_fixedZone\<close>).
\<close>

theorem recurring_expansion_window:
  assumes "\<not> hasRecurrenceId v" and "startDate (event v) = Some sd" and "isRecurring v"
  shows "parseVEvent (rangeStartTime tz now2) (rangeEndTime tz now1) cid cname color v events =
           events @ emitWhile (occurrenceEvent (event v) cid cname color)
                      (inWindow (rangeStartTime tz now2) (rangeEndTime tz now1)
                         (examinedFrom (occurrences v) 0)) \<and>
         length (examinedFrom (occurrences v) 0) \<le> 500 \<and>
         (\<forall>i < length (examinedFrom (occurrences v) 0).
             occurrences v i = IterOcc (examinedFrom (occurrences v) 0 ! i)) \<and>
         length (emitWhile (occurrenceEvent (event v) cid cname color)
                   (inWindow (rangeStartTime tz now2) (rangeEndTime tz now1)
                      (examinedFrom (occurrences v) 0))) \<le> 500 \<and>
         (\<forall>occ \<in> set (inWindow (rangeStartTime tz now2) (rangeEndTime tz now1)
                           (examinedFrom (occurrences v) 0)).
             rangeStartTime tz now2 \<le> occTimeMs occ \<and> occTimeMs occ \<le> rangeEndTime tz now1)"
proof (intro conjI allI impI ballI)
  show "parseVEvent (rangeStartTime tz now2) (rangeEndTime tz now1) cid cname color v events =
           events @ emitWhile (occurrenceEvent (event v) cid cname color)
                      (inWindow (rangeStartTime tz now2) (rangeEndTime tz now1)
                         (examinedFrom (occurrences v) 0))"
    using assms by (rule parseVEvent_recurring)
next
  show len: "length (examinedFrom (occurrences v) 0) \<le> 500"
    using length_examinedFrom[of "occurrences v" 0] by (simp add: maxOccurrences_def)
  have "length (emitWhile (occurrenceEvent (event v) cid cname color)
                   (inWindow (rangeStartTime tz now2) (rangeEndTime tz now1)
                      (examinedFrom (occurrences v) 0))) \<le> length (examinedFrom (occurrences v) 0)"
    by (rule order_trans[OF length_emitWhile length_inWindow])
  with len show "length (emitWhile (occurrenceEvent (event v) cid cname color)
                   (inWindow (rangeStartTime tz now2) (rangeEndTime tz now1)
                      (examinedFrom (occurrences v) 0))) \<le> 500"
    by simp
next
  fix i assume "i < length (examinedFrom (occurrences v) 0)"
  from examinedFrom_nth[OF this] show "occurrences v i = IterOcc (examinedFrom (occurrences v) 0 ! i)"
    by simp
next
  fix occ assume "occ \<in> set (inWindow (rangeStartTime tz now2) (rangeEndTime tz now1)
                           (examinedFrom (occurrences v) 0))"
  then show "rangeStartTime tz now2 \<le> occTimeMs occ" "occTimeMs occ \<le> rangeEndTime tz now1"
    by (simp_all add: set_inWindow)
qed

theorem recurring_expansion_window_witness:
  "\<not> hasRecurrenceId (recurringEvent ''swim'' swimIter) \<and>
   isRecurring (recurringEvent ''swim'' swimIter) \<and>
   rangeStartTime calgary mondayNoon = mondayNoon - 7 * msPerDay \<and>
   rangeEndTime calgary mondayNoon = mondayNoon + 90 * msPerDay \<and>
   parseVEvent (rangeStartTime calgary mondayNoon) (rangeEndTime calgary mondayNoon)
      (js ''cal'') (js ''Family'') (js ''#58a6ff'') (recurringEvent ''swim'' swimIter) [] =
     [\<lparr> ev_id = js ''cal-swim-1704124800000'', ev_title = js ''swim'',
        ev_start = monday + 9 * hour, ev_end = monday + 10 * hour, ev_allDay = False,
        ev_calendarId = js ''cal'', ev_calendarName = js ''Family'', ev_color = js ''#58a6ff'',
        ev_location = None \<rparr>]"
proof -
  have h: "\<not> hasRecurrenceId (recurringEvent ''swim'' swimIter)"
    "startDate (event (recurringEvent ''swim'' swimIter)) = Some \<lparr> toJSDate = monday + 9 * hour, isDate = False \<rparr>"
    "isRecurring (recurringEvent ''swim'' swimIter)"
    by (simp_all add: recurringEvent_def)
  have o: "occurrences (recurringEvent ''swim'' swimIter) = swimIter"
    by (simp add: recurringEvent_def)
  have t: "trim (js ''swim'') = js ''swim''"
    by (simp add: trim_def trimEnd_def trimStart_def js_def isWhiteSpace_def)
  have e: "occurrenceEvent (event (recurringEvent ''swim'' swimIter)) (js ''cal'') (js ''Family'') (js ''#58a6ff'')
             (plainOccurrence (monday + 9 * hour)) =
           Some \<lparr> ev_id = js ''cal-swim-1704124800000'', ev_title = js ''swim'',
        ev_start = monday + 9 * hour, ev_end = monday + 10 * hour, ev_allDay = False,
        ev_calendarId = js ''cal'', ev_calendarName = js ''Family'', ev_color = js ''#58a6ff'',
        ev_location = None \<rparr>"
    by (simp add: occurrenceEvent_def plainOccurrence_def recurringEvent_def newEvent_def t
          numToString_mondayNine Let_def)
       (simp add: js_def hour_def)
  from recurring_expansion_window[OF h, of calgary mondayNoon mondayNoon "js ''cal''" "js ''Family''" "js ''#58a6ff''" "[]"]
  have "parseVEvent (rangeStartTime calgary mondayNoon) (rangeEndTime calgary mondayNoon)
      (js ''cal'') (js ''Family'') (js ''#58a6ff'') (recurringEvent ''swim'' swimIter) [] =
     emitWhile (occurrenceEvent (event (recurringEvent ''swim'' swimIter)) (js ''cal'') (js ''Family'') (js ''#58a6ff''))
       (inWindow (rangeStartTime calgary mondayNoon) (rangeEndTime calgary mondayNoon) (examinedFrom swimIter 0))"
    by (simp add: o)
  also have "\<dots> = [\<lparr> ev_id = js ''cal-swim-1704124800000'', ev_title = js ''swim'',
        ev_start = monday + 9 * hour, ev_end = monday + 10 * hour, ev_allDay = False,
        ev_calendarId = js ''cal'', ev_calendarName = js ''Family'', ev_color = js ''#58a6ff'',
        ev_location = None \<rparr>]"
    unfolding range_mondayNoon inWindow_swimIter by (simp add: e)
  finally show ?thesis
    using h range_mondayNoon by simp
qed

text \<open>
  Claim C1 as stated fails where it says that the occurrences before the window do not
  count against the cap of 500. An event that repeats every day without end and began 600
  days before the reading of the clock: the 500 occurrences that the loop gets from the
  iterator all lie before the window, so nothing is pushed, although the occurrence
  number 600 lies in the window and no event at all has been pushed before it.
\<close>

theorem recurring_cap_counterexample:
  "parseVEvent (rangeStartTime calgary laterNow) (rangeEndTime calgary laterNow)
      (js ''cal'') (js ''Family'') (js ''#58a6ff'') (recurringEvent ''standup'' dailyForever) [] = [] \<and>
   occurrences (recurringEvent ''standup'' dailyForever) 600 = IterOcc (plainOccurrence laterNow) \<and>
   rangeStartTime calgary laterNow \<le> occTimeMs (plainOccurrence laterNow) \<and>
   occTimeMs (plainOccurrence laterNow) \<le> rangeEndTime calgary laterNow"
proof -
  have h: "\<not> hasRecurrenceId (recurringEvent ''standup'' dailyForever)"
    "startDate (event (recurringEvent ''standup'' dailyForever)) = Some \<lparr> toJSDate = monday + 9 * hour, isDate = False \<rparr>"
    "isRecurring (recurringEvent ''standup'' dailyForever)"
    by (simp_all add: recurringEvent_def)
  have o: "occurrences (recurringEvent ''standup'' dailyForever) = dailyForever"
    by (simp add: recurringEvent_def)
  have before: "occTimeMs occ < laterNow - 7 * msPerDay" if "occ \<in> set (examinedFrom dailyForever 0)" for occ
  proof -
    from examinedFrom_set[OF that] obtain j where j: "j < maxOccurrences" "dailyForever j = IterOcc occ"
      by blast
    from j(2) have "occTimeMs occ = monday + 9 * hour + int j * msPerDay"
      by (auto simp: dailyForever_def plainOccurrence_def)
    with j(1) show ?thesis
      by (simp add: laterNow_def maxOccurrences_def msPerDay_def)
  qed
  have "inWindow (laterNow - 7 * msPerDay) (laterNow + 90 * msPerDay) (examinedFrom dailyForever 0) = []"
    by (rule inWindow_all_before) (rule before)
  then have "parseVEvent (rangeStartTime calgary laterNow) (rangeEndTime calgary laterNow)
      (js ''cal'') (js ''Family'') (js ''#58a6ff'') (recurringEvent ''standup'' dailyForever) [] = []"
    by (simp add: parseVEvent_recurring[OF h] o range_laterNow)
  moreover have "occurrences (recurringEvent ''standup'' dailyForever) 600 = IterOcc (plainOccurrence laterNow)"
    by (simp add: o dailyForever_def laterNow_def)
  ultimately show ?thesis
    by (simp add: range_laterNow plainOccurrence_def msPerDay_def)
qed

section \<open>Normalising the text of a feed: facts\<close>

subsection \<open>Searching for a marker\<close>

lemma existsAt_here: "P s \<Longrightarrow> existsAt P s"
  by (cases s) simp_all

lemma existsAt_iff: "existsAt P s \<longleftrightarrow> (\<exists>u v. s = u @ v \<and> P v)"
proof (induction s)
  case Nil
  show ?case by simp
next
  case (Cons c cs)
  show ?case
  proof
    assume "existsAt P (c # cs)"
    then consider "P (c # cs)" | "existsAt P cs" by auto
    then show "\<exists>u v. c # cs = u @ v \<and> P v"
    proof cases
      case 1
      then have "c # cs = [] @ (c # cs) \<and> P (c # cs)" by simp
      then show ?thesis by blast
    next
      case 2
      with Cons.IH obtain u v where "cs = u @ v" "P v" by blast
      then have "c # cs = (c # u) @ v \<and> P v" by simp
      then show ?thesis by blast
    qed
  next
    assume "\<exists>u v. c # cs = u @ v \<and> P v"
    then obtain u v where uv: "c # cs = u @ v" "P v" by blast
    show "existsAt P (c # cs)"
    proof (cases u)
      case Nil
      with uv have "P (c # cs)" by simp
      then show ?thesis by simp
    next
      case (Cons d u')
      with uv have "cs = u' @ v" by simp
      with uv(2) Cons.IH show ?thesis by auto
    qed
  qed
qed

lemma startsWithCI_iff:
  "startsWithCI pat s \<longleftrightarrow> (\<exists>m v. s = m @ v \<and> map canon m = map canon pat)"
proof
  assume "startsWithCI pat s"
  then have "s = take (length pat) s @ drop (length pat) s \<and>
             map canon (take (length pat) s) = map canon pat"
    by (simp add: startsWithCI_def)
  then show "\<exists>m v. s = m @ v \<and> map canon m = map canon pat" by blast
next
  assume "\<exists>m v. s = m @ v \<and> map canon m = map canon pat"
  then obtain m v where mv: "s = m @ v" "map canon m = map canon pat" by blast
  from mv(2) have "length m = length pat" by (rule map_eq_imp_length_eq)
  with mv show "startsWithCI pat s" by (simp add: startsWithCI_def)
qed

lemma containsCI_iff:
  "containsCI pat s \<longleftrightarrow> (\<exists>u m v. s = u @ m @ v \<and> map canon m = map canon pat)"
  unfolding containsCI_def existsAt_iff startsWithCI_iff by blast

lemma containsCI_Nil: "pat \<noteq> [] \<Longrightarrow> \<not> containsCI pat []"
  by (auto simp: containsCI_iff)

lemma containsCI_extend: "containsCI pat s \<Longrightarrow> containsCI pat (a @ s @ b)"
proof -
  assume "containsCI pat s"
  then obtain u m v where "s = u @ m @ v" "map canon m = map canon pat"
    unfolding containsCI_iff by blast
  then have "a @ s @ b = (a @ u) @ m @ (v @ b) \<and> map canon m = map canon pat" by simp
  then show ?thesis unfolding containsCI_iff by blast
qed

lemma containsCI_prefix: "containsCI pat s \<Longrightarrow> containsCI pat (s @ b)"
  using containsCI_extend[of pat s "[]" b] by simp

lemma containsCI_suffix: "containsCI pat s \<Longrightarrow> containsCI pat (a @ s)"
  using containsCI_extend[of pat s a "[]"] by simp

lemma containsCI_split:
  assumes x: "canon x \<notin> set (map canon pat)"
  shows "containsCI pat (a @ x # b) \<longleftrightarrow> containsCI pat a \<or> containsCI pat b"
proof
  assume "containsCI pat a \<or> containsCI pat b"
  then show "containsCI pat (a @ x # b)"
  proof
    assume "containsCI pat a"
    then show ?thesis by (rule containsCI_prefix)
  next
    assume "containsCI pat b"
    from containsCI_suffix[OF this, of "a @ [x]"] show ?thesis by simp
  qed
next
  assume "containsCI pat (a @ x # b)"
  then obtain u m v where s: "a @ x # b = u @ m @ v" and m: "map canon m = map canon pat"
    unfolding containsCI_iff by blast
  have xm: "x \<notin> set m"
  proof
    assume "x \<in> set m"
    then have "canon x \<in> set (map canon m)" by simp
    with m x show False by simp
  qed
  consider (left) "length u + length m \<le> length a"
    | (right) "length a < length u"
    | (inside) "length u \<le> length a" "length a < length u + length m"
    by linarith
  then show "containsCI pat a \<or> containsCI pat b"
  proof cases
    case left
    have "take (length u + length m) (a @ x # b) = take (length u + length m) a"
      using left by simp
    moreover have "take (length u + length m) (u @ m @ v) = u @ m"
      by simp
    ultimately have "take (length u + length m) a = u @ m"
      using s by simp
    then have "a = u @ m @ drop (length u + length m) a"
      by (metis append_assoc append_take_drop_id)
    with m show ?thesis unfolding containsCI_iff by blast
  next
    case right
    have "drop (Suc (length a)) (a @ x # b) = b" by simp
    moreover have "drop (Suc (length a)) (u @ m @ v) = drop (Suc (length a)) u @ m @ v"
      using right by simp
    ultimately have "b = drop (Suc (length a)) u @ m @ v"
      using s by simp
    with m show ?thesis unfolding containsCI_iff by blast
  next
    case inside
    have "(a @ x # b) ! length a = x" by simp
    moreover have lt: "length a - length u < length m"
      using inside by linarith
    moreover have "(u @ m @ v) ! length a = m ! (length a - length u)"
      using inside lt by (simp add: nth_append)
    ultimately have "x = m ! (length a - length u)"
      using s by simp
    moreover note lt
    ultimately have "x \<in> set m" by simp
    with xm show ?thesis by simp
  qed
qed

subsection \<open>The repairs keep and create no marker\<close>

text \<open>
  The markers \<^verbatim>\<open>BEGIN:VCALENDAR\<close> and \<^verbatim>\<open>END:VCALENDAR\<close> hold a colon and neither white
  space nor a backslash. For such a pattern the text that \<^verbatim>\<open>normalizeICSText\<close> tests
  contains the pattern if and only if the text of the feed does.
\<close>

lemma canon_colon: "canon y = 58 \<longleftrightarrow> y = 58"
  by (auto simp: canon_def)

lemma containsCI_colon:
  assumes "containsCI pat s" and "58 \<in> set pat"
  shows "58 \<in> set s"
proof -
  from assms(1) obtain u m v where s: "s = u @ m @ v" and m: "map canon m = map canon pat"
    unfolding containsCI_iff by blast
  have "canon 58 = 58" by (simp add: canon_def)
  with assms(2) have "58 \<in> set (map canon pat)" by force
  with m have "58 \<in> set (map canon m)" by simp
  then obtain y where "y \<in> set m" "canon y = 58" by auto
  with s show ?thesis by (simp add: canon_colon)
qed

lemma containsCI_Cons_nomatch:
  "canon x \<notin> set (map canon pat) \<Longrightarrow> pat \<noteq> [] \<Longrightarrow>
     containsCI pat (x # b) \<longleftrightarrow> containsCI pat b"
  using containsCI_split[of x pat "[]" b] by (simp add: containsCI_Nil)

lemma containsCI_all_space:
  assumes ne: "pat \<noteq> []" and ws: "\<And>c. isWhiteSpace c \<Longrightarrow> canon c \<notin> set (map canon pat)"
  shows "\<forall>c\<in>set w. isWhiteSpace c \<Longrightarrow> \<not> containsCI pat w"
  by (induction w) (simp_all add: containsCI_Nil[OF ne] containsCI_Cons_nomatch[OF ws ne])

lemma containsCI_space_tail:
  assumes ne: "pat \<noteq> []" and ws: "\<And>c. isWhiteSpace c \<Longrightarrow> canon c \<notin> set (map canon pat)"
      and w: "\<forall>c\<in>set w. isWhiteSpace c"
  shows "containsCI pat (a @ w) \<longleftrightarrow> containsCI pat a"
proof (cases w)
  case Nil
  then show ?thesis by simp
next
  case (Cons c w')
  with w have c: "isWhiteSpace c" and w': "\<forall>c\<in>set w'. isWhiteSpace c" by simp_all
  from containsCI_split[OF ws[OF c], of a w'] containsCI_all_space[OF ne ws w'] Cons
  show ?thesis by simp
qed

lemma containsCI_space_head:
  assumes ne: "pat \<noteq> []" and ws: "\<And>c. isWhiteSpace c \<Longrightarrow> canon c \<notin> set (map canon pat)"
  shows "\<forall>c\<in>set w. isWhiteSpace c \<Longrightarrow> containsCI pat (w @ b) \<longleftrightarrow> containsCI pat b"
  by (induction w) (simp_all add: containsCI_Cons_nomatch[OF ws ne])

lemma trimEnd_decomp: "\<exists>w. s = trimEnd s @ w \<and> (\<forall>c\<in>set w. isWhiteSpace c)"
proof -
  have "rev s = takeWhile isWhiteSpace (rev s) @ dropWhile isWhiteSpace (rev s)" by simp
  then have "s = rev (dropWhile isWhiteSpace (rev s)) @ rev (takeWhile isWhiteSpace (rev s))"
    by (metis rev_append rev_rev_ident)
  moreover have "\<forall>c\<in>set (rev (takeWhile isWhiteSpace (rev s))). isWhiteSpace c"
    by (auto dest: set_takeWhileD)
  ultimately show ?thesis unfolding trimEnd_def by blast
qed

lemma trimStart_decomp: "\<exists>w. s = w @ trimStart s \<and> (\<forall>c\<in>set w. isWhiteSpace c)"
proof -
  have "s = takeWhile isWhiteSpace s @ dropWhile isWhiteSpace s" by simp
  moreover have "\<forall>c\<in>set (takeWhile isWhiteSpace s). isWhiteSpace c"
    by (auto dest: set_takeWhileD)
  ultimately show ?thesis unfolding trimStart_def by blast
qed

lemma containsCI_trimEnd:
  assumes ne: "pat \<noteq> []" and ws: "\<And>c. isWhiteSpace c \<Longrightarrow> canon c \<notin> set (map canon pat)"
  shows "containsCI pat (trimEnd s) \<longleftrightarrow> containsCI pat s"
proof -
  from trimEnd_decomp obtain w where w: "s = trimEnd s @ w" "\<forall>c\<in>set w. isWhiteSpace c" by blast
  from containsCI_space_tail[OF ne ws w(2), of "trimEnd s"] w(1) show ?thesis by simp
qed

lemma containsCI_stripBOM:
  assumes ne: "pat \<noteq> []" and ws: "\<And>c. isWhiteSpace c \<Longrightarrow> canon c \<notin> set (map canon pat)"
  shows "containsCI pat (stripBOM s) \<longleftrightarrow> containsCI pat s"
proof -
  have "isWhiteSpace 65279" by (simp add: isWhiteSpace_def)
  from containsCI_Cons_nomatch[OF ws[OF this] ne] show ?thesis
    by (auto simp: stripBOM_def split: list.splits)
qed

lemma nextBreak_Some:
  "nextBreak s = Some (l, r) \<Longrightarrow> s = l @ [13, 10] @ r \<or> s = l @ [13] @ r \<or> s = l @ [10] @ r"
  by (induction s arbitrary: l r) (auto split: if_splits list.splits option.splits)

lemma breaks_are_space: "isWhiteSpace 10" "isWhiteSpace 13"
  by (simp_all add: isWhiteSpace_def)

lemma containsCI_nextBreak:
  assumes ne: "pat \<noteq> []" and ws: "\<And>c. isWhiteSpace c \<Longrightarrow> canon c \<notin> set (map canon pat)"
      and nb: "nextBreak s = Some (l, r)"
  shows "containsCI pat s \<longleftrightarrow> containsCI pat l \<or> containsCI pat r"
proof -
  note n10 = ws[OF breaks_are_space(1)] and n13 = ws[OF breaks_are_space(2)]
  from nextBreak_Some[OF nb] consider "s = l @ 13 # 10 # r" | "s = l @ 13 # r" | "s = l @ 10 # r"
    by auto
  then show ?thesis
  proof cases
    case 1
    then show ?thesis
      by (simp add: containsCI_split[OF n13] containsCI_Cons_nomatch[OF n10 ne])
  next
    case 2
    then show ?thesis by (simp add: containsCI_split[OF n13])
  next
    case 3
    then show ?thesis by (simp add: containsCI_split[OF n10])
  qed
qed

lemma containsCI_joinLines:
  assumes ne: "pat \<noteq> []" and ws: "\<And>c. isWhiteSpace c \<Longrightarrow> canon c \<notin> set (map canon pat)"
  shows "containsCI pat (joinLines ls) \<longleftrightarrow> (\<exists>l\<in>set ls. containsCI pat l)"
proof (induction ls rule: joinLines.induct)
  case 1
  show ?case by (simp add: containsCI_Nil[OF ne])
next
  case (2 l)
  show ?case by simp
next
  case (3 l v va)
  note n10 = ws[OF breaks_are_space(1)] and n13 = ws[OF breaks_are_space(2)]
  have "containsCI pat (joinLines (l # v # va)) \<longleftrightarrow>
          containsCI pat l \<or> containsCI pat (joinLines (v # va))"
    by (simp add: containsCI_split[OF n13] containsCI_Cons_nomatch[OF n10 ne])
  with 3 show ?case by simp
qed

lemma containsCI_foldLine:
  assumes ne: "pat \<noteq> []" and ws: "\<And>c. isWhiteSpace c \<Longrightarrow> canon c \<notin> set (map canon pat)"
      and colon: "58 \<in> set pat" and bs: "canon 92 \<notin> set (map canon pat)"
  shows "(\<exists>l\<in>set (foldLine lines line). containsCI pat l) \<longleftrightarrow>
           (\<exists>l\<in>set lines. containsCI pat l) \<or> containsCI pat line"
proof (cases "\<not> looksLikeProperty (trimStart line) \<and>
              \<not> (case line of [] \<Rightarrow> False | c # _ \<Rightarrow> c = 32 \<or> c = 9) \<and>
              trimStart line \<noteq> [] \<and> lines \<noteq> []")
  case False
  then have "foldLine lines line = lines @ [line]"
    by (auto simp: foldLine_def Let_def)
  then show ?thesis by auto
next
  case True
  then have fl: "foldLine lines line = butlast lines @ [last lines @ [92, 110] @ trimStart line]"
    by (simp add: foldLine_def Let_def)
  from True have nc: "58 \<notin> set (trimStart line)" by (simp add: looksLikeProperty_def)
  from trimStart_decomp obtain w where w: "line = w @ trimStart line" "\<forall>c\<in>set w. isWhiteSpace c"
    by blast
  have no_line: "\<not> containsCI pat line"
  proof
    assume "containsCI pat line"
    with w containsCI_space_head[OF ne ws w(2), of "trimStart line"]
    have "containsCI pat (trimStart line)" by simp
    from containsCI_colon[OF this colon] nc show False by simp
  qed
  have no_tail: "\<not> containsCI pat (110 # trimStart line)"
  proof
    assume "containsCI pat (110 # trimStart line)"
    from containsCI_colon[OF this colon] nc show False by simp
  qed
  have merged: "containsCI pat (last lines @ [92, 110] @ trimStart line) \<longleftrightarrow> containsCI pat (last lines)"
    using containsCI_split[OF bs, of "last lines" "110 # trimStart line"] no_tail by simp
  from True have "lines = butlast lines @ [last lines]" by simp
  then have "set lines = set (butlast lines) \<union> {last lines}"
    by (metis Un_insert_right list.simps(15) set_append sup_bot.right_neutral empty_set)
  then show ?thesis
    unfolding fl using merged no_line by auto
qed

lemma containsCI_fixLoop:
  assumes ne: "pat \<noteq> []" and ws: "\<And>c. isWhiteSpace c \<Longrightarrow> canon c \<notin> set (map canon pat)"
      and colon: "58 \<in> set pat" and bs: "canon 92 \<notin> set (map canon pat)"
  shows "(\<exists>l\<in>set (fixLoop ls t). containsCI pat l) \<longleftrightarrow>
           (\<exists>l\<in>set ls. containsCI pat l) \<or> containsCI pat t"
proof (induction ls t rule: fixLoop.induct)
  case (1 ls t)
  show ?case
  proof (cases "nextBreak t")
    case None
    then show ?thesis
      by (subst fixLoop.simps) (auto simp: containsCI_Nil[OF ne])
  next
    case (Some p)
    obtain line rest where p: "p = (line, rest)" by (cases p)
    from Some p have nb: "nextBreak t = Some (line, rest)" by simp
    have "fixLoop ls t = fixLoop (foldLine ls line) rest"
      by (subst fixLoop.simps) (simp add: nb)
    with "1.IH"[OF nb refl] containsCI_foldLine[OF ne ws colon bs, of ls line]
      containsCI_nextBreak[OF ne ws nb]
    show ?thesis by auto
  qed
qed

lemma containsCI_fixBrokenLineFolding:
  assumes ne: "pat \<noteq> []" and ws: "\<And>c. isWhiteSpace c \<Longrightarrow> canon c \<notin> set (map canon pat)"
      and colon: "58 \<in> set pat" and bs: "canon 92 \<notin> set (map canon pat)"
  shows "containsCI pat (fixBrokenLineFolding s) \<longleftrightarrow> containsCI pat s"
  using containsCI_fixLoop[OF ne ws colon bs, of "[]" s]
  by (simp add: fixBrokenLineFolding_def containsCI_joinLines[OF ne ws])

lemma containsCI_normal_form:
  assumes ne: "pat \<noteq> []" and ws: "\<And>c. isWhiteSpace c \<Longrightarrow> canon c \<notin> set (map canon pat)"
      and colon: "58 \<in> set pat" and bs: "canon 92 \<notin> set (map canon pat)"
  shows "containsCI pat (trimEnd (fixBrokenLineFolding (stripBOM s))) \<longleftrightarrow> containsCI pat s"
  by (simp add: containsCI_trimEnd[OF ne ws] containsCI_fixBrokenLineFolding[OF ne ws colon bs]
        containsCI_stripBOM[OF ne ws])

lemma space_range: "isWhiteSpace c \<Longrightarrow> c < 58 \<or> 122 < c"
  unfolding isWhiteSpace_def by auto

lemma canon_space: "isWhiteSpace c \<Longrightarrow> canon c = c"
  using space_range[of c] by (auto simp: canon_def)

lemma space_not_letter: "isWhiteSpace c \<Longrightarrow> \<not> (58 \<le> c \<and> c \<le> 90)"
  using space_range[of c] by auto

lemma marker_chars:
  "map canon (js ''BEGIN:VCALENDAR'') = [66, 69, 71, 73, 78, 58, 86, 67, 65, 76, 69, 78, 68, 65, 82]"
  "map canon (js ''END:VCALENDAR'') = [69, 78, 68, 58, 86, 67, 65, 76, 69, 78, 68, 65, 82]"
  by (simp_all add: js_def canon_def)

lemma marker_letters:
  "x \<in> set (map canon (js ''BEGIN:VCALENDAR'')) \<Longrightarrow> 58 \<le> x \<and> x \<le> 90"
  "x \<in> set (map canon (js ''END:VCALENDAR'')) \<Longrightarrow> 58 \<le> x \<and> x \<le> 90"
  unfolding marker_chars by auto

lemma pattern_begin:
  "js ''BEGIN:VCALENDAR'' \<noteq> []"
  "isWhiteSpace c \<Longrightarrow> canon c \<notin> set (map canon (js ''BEGIN:VCALENDAR''))"
  "58 \<in> set (js ''BEGIN:VCALENDAR'')"
  "canon 92 \<notin> set (map canon (js ''BEGIN:VCALENDAR''))"
proof -
  show "js ''BEGIN:VCALENDAR'' \<noteq> []" by (simp add: js_def)
  show "58 \<in> set (js ''BEGIN:VCALENDAR'')" by (simp add: js_def)
  show "canon c \<notin> set (map canon (js ''BEGIN:VCALENDAR''))" if "isWhiteSpace c"
    using marker_letters(1)[of "canon c"] canon_space[OF that] space_not_letter[OF that] by auto
  have "canon 92 = 92" by (simp add: canon_def)
  with marker_letters(1)[of "canon 92"]
  show "canon 92 \<notin> set (map canon (js ''BEGIN:VCALENDAR''))" by auto
qed

lemma pattern_end:
  "js ''END:VCALENDAR'' \<noteq> []"
  "isWhiteSpace c \<Longrightarrow> canon c \<notin> set (map canon (js ''END:VCALENDAR''))"
  "58 \<in> set (js ''END:VCALENDAR'')"
  "canon 92 \<notin> set (map canon (js ''END:VCALENDAR''))"
proof -
  show "js ''END:VCALENDAR'' \<noteq> []" by (simp add: js_def)
  show "58 \<in> set (js ''END:VCALENDAR'')" by (simp add: js_def)
  show "canon c \<notin> set (map canon (js ''END:VCALENDAR''))" if "isWhiteSpace c"
    using marker_letters(2)[of "canon c"] canon_space[OF that] space_not_letter[OF that] by auto
  have "canon 92 = 92" by (simp add: canon_def)
  with marker_letters(2)[of "canon 92"]
  show "canon 92 \<notin> set (map canon (js ''END:VCALENDAR''))" by auto
qed

lemma testEndVCalendar_contains: "testEndVCalendar s \<Longrightarrow> containsCI (js ''END:VCALENDAR'') s"
  unfolding testEndVCalendar_def containsCI_def existsAt_iff by blast

lemma normalizeICSText_appends:
  assumes "containsCI (js ''BEGIN:VCALENDAR'') s" and "\<not> containsCI (js ''END:VCALENDAR'') s"
  shows "normalizeICSText s =
           trimEnd (fixBrokenLineFolding (stripBOM s)) @ [13, 10] @ js ''END:VCALENDAR''"
proof -
  let ?p = "trimEnd (fixBrokenLineFolding (stripBOM s))"
  from assms(1) have b: "testBeginVCalendar ?p"
    by (simp add: testBeginVCalendar_def containsCI_normal_form[OF pattern_begin])
  from assms(2) have "\<not> containsCI (js ''END:VCALENDAR'') ?p"
    by (simp add: containsCI_normal_form[OF pattern_end])
  with testEndVCalendar_contains have "\<not> testEndVCalendar ?p" by blast
  with b show ?thesis by (simp add: normalizeICSText_def Let_def)
qed

lemma testBegin_normalizeICSText:
  "testBeginVCalendar (normalizeICSText s) \<longleftrightarrow> containsCI (js ''BEGIN:VCALENDAR'') s"
proof -
  let ?p = "trimEnd (fixBrokenLineFolding (stripBOM s))"
  have p: "testBeginVCalendar ?p \<longleftrightarrow> containsCI (js ''BEGIN:VCALENDAR'') s"
    by (simp add: testBeginVCalendar_def containsCI_normal_form[OF pattern_begin])
  show ?thesis
  proof (cases "testBeginVCalendar ?p \<and> \<not> testEndVCalendar ?p")
    case True
    then have "normalizeICSText s = ?p @ ([13, 10] @ js ''END:VCALENDAR'')"
      by (simp add: normalizeICSText_def Let_def)
    moreover from True have "containsCI (js ''BEGIN:VCALENDAR'') ?p"
      by (simp add: testBeginVCalendar_def)
    ultimately have "testBeginVCalendar (normalizeICSText s)"
      unfolding testBeginVCalendar_def by (simp only: containsCI_prefix)
    with True p show ?thesis by simp
  next
    case False
    then have "normalizeICSText s = ?p"
      by (auto simp: normalizeICSText_def Let_def)
    with p show ?thesis by simp
  qed
qed

lemma parseVEvent_single:
  assumes "\<not> hasRecurrenceId v" and "startDate (event v) = Some sd" and "\<not> isRecurring v"
      and "endDate v = Some ed"
  shows "\<exists>e. parseVEvent rs re cid cname color v [] = [e] \<and>
             newEvent (event v) (toJSDate sd) (toJSDate ed) cid cname color None = Some e \<and>
             ev_start e = toJSDate sd \<and> ev_end e = toJSDate ed \<and> ev_allDay e = isDate sd \<and>
             ev_calendarId e = cid \<and> ev_calendarName e = cname \<and> ev_color e = color"
  using assms by (simp add: parseVEvent_def pushEvent_def newEvent_def Let_def)

subsection \<open>The example texts\<close>

lemma text_chars:
  "truncatedText = [66, 69, 71, 73, 78, 58, 86, 67, 65, 76, 69, 78, 68, 65, 82, 13, 10,
     88, 45, 87, 82, 45, 67, 65, 76, 78, 65, 77, 69, 58, 70, 97, 109, 105, 108, 121, 13, 10]"
  "completeText = [66, 69, 71, 73, 78, 58, 86, 67, 65, 76, 69, 78, 68, 65, 82, 13, 10,
     88, 45, 87, 82, 45, 67, 65, 76, 78, 65, 77, 69, 58, 70, 97, 109, 105, 108, 121, 13, 10,
     69, 78, 68, 58, 86, 67, 65, 76, 69, 78, 68, 65, 82]"
  "htmlText = [60, 104, 116, 109, 108, 62, 53, 48, 50, 60, 47, 104, 116, 109, 108, 62]"
  by (simp_all add: truncatedText_def completeText_def htmlText_def js_def)

lemma marker_plain:
  "js ''BEGIN:VCALENDAR'' = [66, 69, 71, 73, 78, 58, 86, 67, 65, 76, 69, 78, 68, 65, 82]"
  "js ''END:VCALENDAR'' = [69, 78, 68, 58, 86, 67, 65, 76, 69, 78, 68, 65, 82]"
  by (simp_all add: js_def)

lemma truncated_begin: "containsCI (js ''BEGIN:VCALENDAR'') truncatedText"
  unfolding containsCI_def text_chars
  by (rule existsAt_here) (simp add: startsWithCI_def marker_chars marker_plain canon_def)

lemma truncated_no_end: "\<not> containsCI (js ''END:VCALENDAR'') truncatedText"
  unfolding containsCI_def text_chars
  by (simp add: startsWithCI_def marker_chars marker_plain canon_def)

lemma truncated_normal_form:
  "trimEnd (fixBrokenLineFolding (stripBOM truncatedText)) =
     js ''BEGIN:VCALENDAR'' @ [13, 10] @ js ''X-WR-CALNAME:Family''"
proof -
  have s: "stripBOM truncatedText = truncatedText"
    by (simp add: stripBOM_def text_chars)
  have f: "fixLoop [] truncatedText = [js ''BEGIN:VCALENDAR'', js ''X-WR-CALNAME:Family'']"
    unfolding text_chars
    apply (subst fixLoop.simps, simp add: foldLine_def trimStart_def isWhiteSpace_def looksLikeProperty_def)
    apply (subst fixLoop.simps, simp add: foldLine_def trimStart_def isWhiteSpace_def looksLikeProperty_def)
    apply (subst fixLoop.simps, simp add: js_def)
    done
  show ?thesis
    by (simp add: s fixBrokenLineFolding_def f trimEnd_def js_def isWhiteSpace_def)
qed

lemma truncated_normalized: "normalizeICSText truncatedText = completeText"
  by (simp add: normalizeICSText_appends[OF truncated_begin truncated_no_end]
        truncated_normal_form completeText_def)

lemma html_no_begin: "\<not> containsCI (js ''BEGIN:VCALENDAR'') htmlText"
  unfolding containsCI_def text_chars
  by (simp add: startsWithCI_def marker_chars marker_plain canon_def)

lemma html_normalized: "normalizeICSText htmlText = htmlText"
proof -
  have s: "stripBOM htmlText = htmlText"
    by (simp add: stripBOM_def text_chars)
  have f: "fixLoop [] htmlText = [htmlText]"
    unfolding text_chars by (subst fixLoop.simps) simp
  have p: "trimEnd (fixBrokenLineFolding (stripBOM htmlText)) = htmlText"
    unfolding s fixBrokenLineFolding_def f
    by (simp add: trimEnd_def text_chars isWhiteSpace_def)
  from html_no_begin have "\<not> testBeginVCalendar htmlText" by (simp add: testBeginVCalendar_def)
  then show ?thesis by (simp add: normalizeICSText_def Let_def p)
qed

lemma html_message:
  "notCalendarMessage htmlText =
     js ''Response is not a calendar (expected BEGIN:VCALENDAR). Server may have returned HTML. Preview: <html>502</html>''"
  by (simp add: notCalendarMessage_def text_chars isWhiteSpace_def Let_def js_def)

lemma dentist_event:
  "newEvent (event dentist) (monday + 9 * hour) (monday + 10 * hour)
     (js ''cal'') (js ''Family'') (js ''#58a6ff'') None = Some dentistEvent"
proof -
  have t: "trim (js '' Dentist'') = js ''Dentist''"
    by (simp add: trim_def trimEnd_def trimStart_def js_def isWhiteSpace_def)
  show ?thesis
    by (simp add: newEvent_def dentist_def dentistEvent_def t Let_def) (simp add: js_def)
qed

lemma dentist_fields:
  "\<not> hasRecurrenceId dentist" "\<not> isRecurring dentist"
  "startDate (event dentist) = Some \<lparr> toJSDate = monday + 9 * hour, isDate = False \<rparr>"
  "endDate dentist = Some \<lparr> toJSDate = monday + 10 * hour, isDate = False \<rparr>"
  by (simp_all add: dentist_def)

lemma parse_dentist:
  "parseICSEvents tz now1 now2 (Component [dentist]) (js ''cal'') (js ''Family'') (js ''#58a6ff'') =
     [dentistEvent]"
  by (simp add: parseICSEvents_def parseVEvent_def pushEvent_def dentist_fields dentist_event)

section \<open>The ids of the events: facts\<close>

lemma digitsValue_snoc: "digitsValue (xs @ [c]) = 10 * digitsValue xs + (c - 48)"
  by (simp add: digitsValue_def)

lemma digitsValue_natToDigits: "digitsValue (natToDigits n) = n"
proof (induction n rule: natToDigits.induct)
  case (1 n)
  show ?case
  proof (cases "n < 10")
    case True
    then show ?thesis by (subst natToDigits.simps) (simp add: digitsValue_def)
  next
    case False
    with "1.IH" show ?thesis
      by (subst natToDigits.simps) (simp add: digitsValue_snoc)
  qed
qed

lemma natToDigits_inj: "natToDigits a = natToDigits b \<Longrightarrow> a = b"
  by (metis digitsValue_natToDigits)

lemma natToDigits_hd: "\<exists>c cs. natToDigits n = c # cs \<and> 48 \<le> c"
proof (induction n rule: natToDigits.induct)
  case (1 n)
  show ?case
  proof (cases "n < 10")
    case True
    then show ?thesis by (subst natToDigits.simps) simp
  next
    case False
    with "1.IH" obtain c cs where "natToDigits (n div 10) = c # cs" "48 \<le> c" by blast
    with False show ?thesis by (subst natToDigits.simps) simp
  qed
qed

lemma numToString_inj: "numToString a = numToString b \<Longrightarrow> a = b"
proof -
  assume eq: "numToString a = numToString b"
  have neg: False if "numToString x = numToString y" "x < 0" "\<not> y < 0" for x y
  proof -
    from natToDigits_hd[of "nat y"] obtain c cs where "natToDigits (nat y) = c # cs" "48 \<le> c"
      by blast
    with that show False by (simp add: numToString_def)
  qed
  show ?thesis
  proof (cases "a < 0")
    case a: True
    show ?thesis
    proof (cases "b < 0")
      case True
      with a eq have "nat (- a) = nat (- b)"
        by (simp add: numToString_def natToDigits_inj)
      with a True show ?thesis by simp
    next
      case False
      with neg[OF eq a] show ?thesis by simp
    qed
  next
    case a: False
    show ?thesis
    proof (cases "b < 0")
      case True
      with neg[OF eq[symmetric] True a] show ?thesis by simp
    next
      case False
      with a eq have "nat a = nat b"
        by (simp add: numToString_def natToDigits_inj)
      with a False show ?thesis by simp
    qed
  qed
qed

lemma numToString_nonempty: "numToString a \<noteq> []"
  using natToDigits_hd[of "nat a"] by (auto simp: numToString_def)

lemma occurrenceEvent_id:
  assumes "occurrenceEvent ev cid cname color occ = Some e"
      and "uid ev = Some u" and "u \<noteq> []"
      and "\<And>d it. occDetails occ = Some d \<Longrightarrow> item d = Some it \<Longrightarrow> uid it = Some u"
  shows "ev_id e = cid @ js ''-'' @ u @ js ''-'' @ numToString (occTimeMs occ)"
proof -
  from assms(1) obtain d where d: "occDetails occ = Some d"
    and n: "newEvent (case item d of Some it \<Rightarrow> it | None \<Rightarrow> ev) (detailsStart d) (detailsEnd d)
              cid cname color (Some (numToString (occTimeMs occ))) = Some e"
    by (auto simp: occurrenceEvent_def split: option.splits)
  have u: "uid (case item d of Some it \<Rightarrow> it | None \<Rightarrow> ev) = Some u"
    using assms(2) assms(4)[OF d] by (cases "item d") simp_all
  from n u assms(3) show ?thesis
    by (auto simp: newEvent_def Let_def numToString_nonempty split: option.splits)
qed

lemma emitWhile_ids:
  assumes "\<And>occ e. occ \<in> set occs \<Longrightarrow> f occ = Some e \<Longrightarrow> ev_id e = g occ"
  shows "\<exists>n. map ev_id (emitWhile f occs) = map g (take n occs)"
  using assms
proof (induction occs)
  case Nil
  show ?case by simp
next
  case (Cons occ occs)
  show ?case
  proof (cases "f occ")
    case None
    then have "map ev_id (emitWhile f (occ # occs)) = map g (take 0 (occ # occs))" by simp
    then show ?thesis by blast
  next
    case (Some e)
    from Cons.IH Cons.prems obtain n where n: "map ev_id (emitWhile f occs) = map g (take n occs)"
      by auto
    from Some Cons.prems have "ev_id e = g occ" by simp
    with Some n have "map ev_id (emitWhile f (occ # occs)) = map g (take (Suc n) (occ # occs))"
      by simp
    then show ?thesis by blast
  qed
qed

lemma distinct_times_inWindow:
  assumes "distinct (map occTimeMs occs)"
  shows "distinct (map occTimeMs (take n (inWindow rs re occs)))"
proof -
  have "distinct (map occTimeMs (takeWhile (\<lambda>occ. occTimeMs occ \<le> re) occs))"
    using assms by (metis distinct_take take_map takeWhile_eq_take)
  then have "distinct (map occTimeMs (inWindow rs re occs))"
    unfolding inWindow_def by (rule distinct_map_filter)
  then show ?thesis by (metis distinct_take take_map)
qed

lemma swim_fields:
  "\<not> hasRecurrenceId (recurringEvent ''swim'' swimIter)"
  "startDate (event (recurringEvent ''swim'' swimIter)) = Some \<lparr> toJSDate = monday + 9 * hour, isDate = False \<rparr>"
  "isRecurring (recurringEvent ''swim'' swimIter)"
  "uid (event (recurringEvent ''swim'' swimIter)) = Some (js ''swim'')"
  "occurrences (recurringEvent ''swim'' swimIter) = swimIter"
  by (simp_all add: recurringEvent_def)

lemma swim_occurrenceEvent:
  "occurrenceEvent (event (recurringEvent ''swim'' swimIter)) (js ''cal'') (js ''Family'')
     (js ''#58a6ff'') (plainOccurrence t) =
   Some \<lparr> ev_id = js ''cal-swim-'' @ numToString t, ev_title = js ''swim'', ev_start = t,
          ev_end = t + hour, ev_allDay = False, ev_calendarId = js ''cal'',
          ev_calendarName = js ''Family'', ev_color = js ''#58a6ff'', ev_location = None \<rparr>"
proof -
  have t: "trim (js ''swim'') = js ''swim''"
    by (simp add: trim_def trimEnd_def trimStart_def js_def isWhiteSpace_def)
  show ?thesis
    by (simp add: occurrenceEvent_def plainOccurrence_def recurringEvent_def newEvent_def t
          numToString_nonempty Let_def)
       (simp add: js_def)
qed

lemma swim_times:
  "numToString (monday - 14 * msPerDay + 9 * hour) = js ''1702915200000''"
  "numToString (monday + 100 * msPerDay + 9 * hour) = js ''1712764800000''"
  by (simp_all add: monday_def hour_def msPerDay_def numToString_def natToDigits_small
        natToDigits_step js_def)

lemma swim_wide_window:
  "inWindow (monday - 30 * msPerDay) (monday + 200 * msPerDay) (examinedFrom swimIter 0) =
     examinedFrom swimIter 0"
  unfolding examinedFrom_swimIter inWindow_def
  by (simp add: plainOccurrence_def hour_def msPerDay_def)

section \<open>Parsing a feed: further claims\<close>

text \<open>
  Claim C6. A \<^verbatim>\<open>VEVENT\<close> of the parsed calendar that has a start, is no recurrence
  override, does not recur and whose end can be read yields exactly one event, at its place
  between the events of the components before it and of those after it; the start and end
  of the event are those of the record, and \<^verbatim>\<open>allDay\<close> is the flag \<^verbatim>\<open>isDate\<close> of the
  start of the record.
\<close>

theorem nonrecurring_one_event:
  assumes "\<not> hasRecurrenceId v" and "startDate (event v) = Some sd" and "\<not> isRecurring v"
      and "endDate v = Some ed"
      and "testBeginVCalendar (normalizeICSText icsText)"
      and "icalParse (normalizeICSText icsText) = Inr (Component (before @ v # after))"
  shows "\<exists>e. parseICS tz now1 now2 icalParse icsText cid cname color =
               Inr (parseICSEvents tz now1 now2 (Component before) cid cname color @ [e] @
                    parseICSEvents tz now1 now2 (Component after) cid cname color) \<and>
             ev_start e = toJSDate sd \<and> ev_end e = toJSDate ed \<and> ev_allDay e = isDate sd \<and>
             ev_calendarId e = cid \<and> ev_calendarName e = cname \<and> ev_color e = color"
proof -
  from parseVEvent_single[OF assms(1-4), of "rangeStartTime tz now2" "rangeEndTime tz now1" cid cname color]
  obtain e where e: "parseVEvent (rangeStartTime tz now2) (rangeEndTime tz now1) cid cname color v [] = [e]"
    and f: "ev_start e = toJSDate sd \<and> ev_end e = toJSDate ed \<and> ev_allDay e = isDate sd \<and>
             ev_calendarId e = cid \<and> ev_calendarName e = cname \<and> ev_color e = color"
    by blast
  have "parseICS tz now1 now2 icalParse icsText cid cname color =
          Inr (parseICSEvents tz now1 now2 (Component (before @ v # after)) cid cname color)"
    using assms(5,6) by (simp add: parseICS_def Let_def)
  also have "parseICSEvents tz now1 now2 (Component (before @ v # after)) cid cname color =
          parseICSEvents tz now1 now2 (Component before) cid cname color @ [e] @
          parseICSEvents tz now1 now2 (Component after) cid cname color"
    by (simp add: parseICSEvents_Component e)
  finally show ?thesis using f by blast
qed

theorem nonrecurring_one_event_witness:
  "\<not> hasRecurrenceId dentist \<and> \<not> isRecurring dentist \<and>
   startDate (event dentist) = Some \<lparr> toJSDate = monday + 9 * hour, isDate = False \<rparr> \<and>
   endDate dentist = Some \<lparr> toJSDate = monday + 10 * hour, isDate = False \<rparr> \<and>
   testBeginVCalendar (normalizeICSText truncatedText) \<and>
   exampleParser (normalizeICSText truncatedText) = Inr (Component [dentist]) \<and>
   parseICS calgary mondayNoon mondayNoon exampleParser truncatedText
     (js ''cal'') (js ''Family'') (js ''#58a6ff'') = Inr [dentistEvent] \<and>
   ev_start dentistEvent = monday + 9 * hour \<and> ev_end dentistEvent = monday + 10 * hour \<and>
   \<not> ev_allDay dentistEvent"
proof -
  have b: "testBeginVCalendar (normalizeICSText truncatedText)"
    by (simp add: testBegin_normalizeICSText truncated_begin)
  have p: "exampleParser (normalizeICSText truncatedText) = Inr (Component ([] @ dentist # []))"
    by (simp add: truncated_normalized exampleParser_def)
  from nonrecurring_one_event[where icalParse = exampleParser and icsText = truncatedText
         and before = "[]" and after = "[]" and tz = calgary and ?now1.0 = mondayNoon
         and ?now2.0 = mondayNoon and cid = "js ''cal''" and cname = "js ''Family''"
         and color = "js ''#58a6ff''",
       OF dentist_fields(1) dentist_fields(3) dentist_fields(2) dentist_fields(4) b p]
  obtain e where e: "parseICS calgary mondayNoon mondayNoon exampleParser truncatedText
       (js ''cal'') (js ''Family'') (js ''#58a6ff'') = Inr [e]"
    and f: "ev_start e = monday + 9 * hour" "ev_end e = monday + 10 * hour" "\<not> ev_allDay e"
    by (auto simp: parseICSEvents_def)
  have "parseICS calgary mondayNoon mondayNoon exampleParser truncatedText
     (js ''cal'') (js ''Family'') (js ''#58a6ff'') = Inr [dentistEvent]"
    using b by (simp add: parseICS_def truncated_normalized exampleParser_def parse_dentist)
  with e have "e = dentistEvent" by simp
  with e f b p dentist_fields show ?thesis by simp
qed

text \<open>
  Claim C7. A text that contains \<^verbatim>\<open>BEGIN:VCALENDAR\<close> and nowhere \<^verbatim>\<open>END:VCALENDAR\<close> (in
  any case of the letters) is normalised to its repaired form followed by a line break and
  \<^verbatim>\<open>END:VCALENDAR\<close>, and \<^verbatim>\<open>parseICS\<close> hands that text to the parser of the library and
  returns the events of the calendar if the parser accepts it. A text whose normal form
  does not contain \<^verbatim>\<open>BEGIN:VCALENDAR\<close> makes \<^verbatim>\<open>parseICS\<close> throw the error "Response is
  not a calendar", whatever the parser of the library would do: it is not called.
\<close>

theorem normalize_repairs_or_rejects:
  "(containsCI (js ''BEGIN:VCALENDAR'') icsText \<and> \<not> containsCI (js ''END:VCALENDAR'') icsText \<longrightarrow>
      normalizeICSText icsText =
        trimEnd (fixBrokenLineFolding (stripBOM icsText)) @ [13, 10] @ js ''END:VCALENDAR'' \<and>
      parseICS tz now1 now2 icalParse icsText cid cname color =
        (case icalParse (normalizeICSText icsText) of
           Inl msg \<Rightarrow> Inl (js ''Calendar parse failed: '' @ msg)
         | Inr vcal \<Rightarrow> Inr (parseICSEvents tz now1 now2 vcal cid cname color))) \<and>
   (\<not> testBeginVCalendar (normalizeICSText icsText) \<longrightarrow>
      (\<forall>anyParse. parseICS tz now1 now2 anyParse icsText cid cname color =
         Inl (notCalendarMessage (normalizeICSText icsText))))"
proof (intro conjI impI allI)
  assume h: "containsCI (js ''BEGIN:VCALENDAR'') icsText \<and> \<not> containsCI (js ''END:VCALENDAR'') icsText"
  then show "normalizeICSText icsText =
        trimEnd (fixBrokenLineFolding (stripBOM icsText)) @ [13, 10] @ js ''END:VCALENDAR''"
    by (simp add: normalizeICSText_appends)
  from h have "testBeginVCalendar (normalizeICSText icsText)"
    by (simp add: testBegin_normalizeICSText)
  then show "parseICS tz now1 now2 icalParse icsText cid cname color =
        (case icalParse (normalizeICSText icsText) of
           Inl msg \<Rightarrow> Inl (js ''Calendar parse failed: '' @ msg)
         | Inr vcal \<Rightarrow> Inr (parseICSEvents tz now1 now2 vcal cid cname color))"
    by (simp add: parseICS_def Let_def)
next
  fix anyParse
  assume "\<not> testBeginVCalendar (normalizeICSText icsText)"
  then show "parseICS tz now1 now2 anyParse icsText cid cname color =
         Inl (notCalendarMessage (normalizeICSText icsText))"
    by (simp add: parseICS_def Let_def)
qed

theorem normalize_repairs_or_rejects_witness:
  "containsCI (js ''BEGIN:VCALENDAR'') truncatedText \<and>
   \<not> containsCI (js ''END:VCALENDAR'') truncatedText \<and>
   normalizeICSText truncatedText = completeText \<and>
   exampleParser truncatedText = Inl (js ''invalid ical body'') \<and>
   parseICS calgary mondayNoon mondayNoon exampleParser truncatedText
     (js ''cal'') (js ''Family'') (js ''#58a6ff'') = Inr [dentistEvent] \<and>
   \<not> testBeginVCalendar (normalizeICSText htmlText) \<and>
   parseICS calgary mondayNoon mondayNoon exampleParser htmlText
     (js ''cal'') (js ''Family'') (js ''#58a6ff'') =
     Inl (js ''Response is not a calendar (expected BEGIN:VCALENDAR). Server may have returned HTML. Preview: <html>502</html>'')"
proof -
  note t = normalize_repairs_or_rejects[of truncatedText calgary mondayNoon mondayNoon exampleParser
      "js ''cal''" "js ''Family''" "js ''#58a6ff''"]
  note h = normalize_repairs_or_rejects[of htmlText calgary mondayNoon mondayNoon exampleParser
      "js ''cal''" "js ''Family''" "js ''#58a6ff''"]
  have ne: "truncatedText \<noteq> completeText"
    by (simp add: text_chars)
  have nb: "\<not> testBeginVCalendar (normalizeICSText htmlText)"
    by (simp add: testBegin_normalizeICSText html_no_begin)
  from t truncated_begin truncated_no_end
  have 1: "parseICS calgary mondayNoon mondayNoon exampleParser truncatedText
     (js ''cal'') (js ''Family'') (js ''#58a6ff'') = Inr [dentistEvent]"
    by (simp add: truncated_normalized exampleParser_def parse_dentist)
  from h nb
  have 2: "parseICS calgary mondayNoon mondayNoon exampleParser htmlText
     (js ''cal'') (js ''Family'') (js ''#58a6ff'') = Inl (notCalendarMessage htmlText)"
    by (simp add: html_normalized)
  show ?thesis
    using truncated_begin truncated_no_end truncated_normalized ne nb 1 2
    by (simp add: exampleParser_def html_message)
qed

text \<open>
  Claim C8. \<^verbatim>\<open>parseICS\<close> reads the text of the feed only through its normal form: two
  calls on texts with the same normal form, for the same feed, with the same readings of
  the clock, in the same time zone and with the same library, return the same list of
  events or the same error. Everything the code reads is an argument of the model, so
  there is no other input a result could depend on.
\<close>

theorem parseICS_deterministic:
  "normalizeICSText text1 = normalizeICSText text2 \<Longrightarrow>
     parseICS tz now1 now2 icalParse text1 cid cname color =
     parseICS tz now1 now2 icalParse text2 cid cname color"
  by (simp add: parseICS_def)

theorem parseICS_deterministic_witness:
  "normalizeICSText ([65279] @ truncatedText @ [32]) = normalizeICSText truncatedText \<and>
   [65279] @ truncatedText @ [32] \<noteq> truncatedText \<and>
   parseICS calgary mondayNoon mondayNoon exampleParser ([65279] @ truncatedText @ [32])
     (js ''cal'') (js ''Family'') (js ''#58a6ff'') =
   parseICS calgary mondayNoon mondayNoon exampleParser truncatedText
     (js ''cal'') (js ''Family'') (js ''#58a6ff'')"
proof -
  have b: "containsCI (js ''BEGIN:VCALENDAR'') ([65279] @ truncatedText @ [32])"
    by (rule containsCI_extend) (rule truncated_begin)
  have "isWhiteSpace 32" "isWhiteSpace 65279" by (simp_all add: isWhiteSpace_def)
  then have e: "\<not> containsCI (js ''END:VCALENDAR'') ([65279] @ truncatedText @ [32])"
    using truncated_no_end containsCI_split[OF pattern_end(2), of 32 truncatedText "[]"]
      containsCI_Cons_nomatch[OF pattern_end(2) pattern_end(1), of 65279 "truncatedText @ [32]"]
    by (simp add: containsCI_Nil[OF pattern_end(1)])
  have s: "stripBOM ([65279] @ truncatedText @ [32]) = truncatedText @ [32]"
    by (simp add: stripBOM_def)
  have f: "fixLoop [] (truncatedText @ [32]) = [js ''BEGIN:VCALENDAR'', js ''X-WR-CALNAME:Family'', [32]]"
    unfolding text_chars
    apply (subst fixLoop.simps, simp add: foldLine_def trimStart_def isWhiteSpace_def looksLikeProperty_def)
    apply (subst fixLoop.simps, simp add: foldLine_def trimStart_def isWhiteSpace_def looksLikeProperty_def)
    apply (subst fixLoop.simps, simp add: js_def)
    done
  have p: "trimEnd (fixBrokenLineFolding (stripBOM ([65279] @ truncatedText @ [32]))) =
     js ''BEGIN:VCALENDAR'' @ [13, 10] @ js ''X-WR-CALNAME:Family''"
    unfolding s fixBrokenLineFolding_def f
    by (simp add: trimEnd_def js_def isWhiteSpace_def)
  have n: "normalizeICSText ([65279] @ truncatedText @ [32]) = normalizeICSText truncatedText"
    unfolding normalizeICSText_appends[OF b e] p truncated_normalized completeText_def by simp
  from parseICS_deterministic[OF n] n show ?thesis by simp
qed

text \<open>
  Claim C5, as amended. For a recurring \<^verbatim>\<open>VEVENT\<close> with a \<^verbatim>\<open>UID\<close>, whose occurrences are
  described by events with the same \<^verbatim>\<open>UID\<close> and lie at pairwise different times, the
  ids of the events pushed are pairwise different, and each is the id of the feed, the
  \<^verbatim>\<open>UID\<close> and the time of the occurrence in milliseconds, joined by hyphens; the id
  depends on nothing else, so a new parse of the same feed gives the same ids.
\<close>

theorem occurrence_ids_distinct:
  assumes "\<not> hasRecurrenceId v" and "startDate (event v) = Some sd" and "isRecurring v"
      and "uid (event v) = Some u" and "u \<noteq> []"
      and "\<forall>occ\<in>set (examinedFrom (occurrences v) 0).
             \<forall>d it. occDetails occ = Some d \<longrightarrow> item d = Some it \<longrightarrow> uid it = Some u"
      and "distinct (map occTimeMs (examinedFrom (occurrences v) 0))"
  shows "distinct (map ev_id (parseVEvent rs re cid cname color v [])) \<and>
         (\<exists>n. map ev_id (parseVEvent rs re cid cname color v []) =
                map (\<lambda>occ. cid @ js ''-'' @ u @ js ''-'' @ numToString (occTimeMs occ))
                  (take n (inWindow rs re (examinedFrom (occurrences v) 0))))"
proof -
  let ?g = "\<lambda>occ. cid @ js ''-'' @ u @ js ''-'' @ numToString (occTimeMs occ)"
  let ?W = "inWindow rs re (examinedFrom (occurrences v) 0)"
  have p: "parseVEvent rs re cid cname color v [] = emitWhile (occurrenceEvent (event v) cid cname color) ?W"
    using parseVEvent_recurring[OF assms(1-3), of rs re cid cname color "[]"] by simp
  have sub: "set ?W \<subseteq> set (examinedFrom (occurrences v) 0)"
    unfolding inWindow_def by (auto dest: set_takeWhileD)
  have "\<exists>n. map ev_id (emitWhile (occurrenceEvent (event v) cid cname color) ?W) = map ?g (take n ?W)"
  proof (rule emitWhile_ids)
    fix occ e
    assume occ: "occ \<in> set ?W" and e: "occurrenceEvent (event v) cid cname color occ = Some e"
    from occ sub have "occ \<in> set (examinedFrom (occurrences v) 0)" by blast
    with assms(6) have "\<And>d it. occDetails occ = Some d \<Longrightarrow> item d = Some it \<Longrightarrow> uid it = Some u"
      by blast
    from occurrenceEvent_id[OF e assms(4) assms(5) this] show "ev_id e = ?g occ" by simp
  qed
  then obtain n where n: "map ev_id (parseVEvent rs re cid cname color v []) = map ?g (take n ?W)"
    unfolding p by blast
  define ts where "ts = map occTimeMs (take n ?W)"
  define h where "h = (\<lambda>t. cid @ js ''-'' @ u @ js ''-'' @ numToString t)"
  have d: "distinct ts"
    unfolding ts_def using assms(7) by (rule distinct_times_inWindow)
  have "inj h"
    unfolding h_def by (rule injI) (simp add: numToString_inj)
  then have "inj_on h (set ts)" by (rule inj_on_subset) simp
  with d have "distinct (map h ts)" by (simp only: distinct_map simp_thms)
  moreover have "map h ts = map ?g (take n ?W)"
    unfolding ts_def h_def by simp
  ultimately have "distinct (map ?g (take n ?W))" by simp
  with n show ?thesis by metis
qed

theorem occurrence_ids_distinct_witness:
  "uid (event (recurringEvent ''swim'' swimIter)) = Some (js ''swim'') \<and>
   distinct (map occTimeMs (examinedFrom swimIter 0)) \<and>
   map ev_id (parseVEvent (monday - 30 * msPerDay) (monday + 200 * msPerDay)
               (js ''cal'') (js ''Family'') (js ''#58a6ff'') (recurringEvent ''swim'' swimIter) []) =
     [js ''cal-swim-1702915200000'', js ''cal-swim-1704124800000'', js ''cal-swim-1712764800000''] \<and>
   distinct (map ev_id (parseVEvent (monday - 30 * msPerDay) (monday + 200 * msPerDay)
               (js ''cal'') (js ''Family'') (js ''#58a6ff'') (recurringEvent ''swim'' swimIter) []))"
proof -
  have ne: "js ''swim'' \<noteq> []" by (simp add: js_def)
  have items: "\<forall>occ\<in>set (examinedFrom (occurrences (recurringEvent ''swim'' swimIter)) 0).
             \<forall>d it. occDetails occ = Some d \<longrightarrow> item d = Some it \<longrightarrow> uid it = Some (js ''swim'')"
    unfolding swim_fields examinedFrom_swimIter by (auto simp: plainOccurrence_def)
  have times: "distinct (map occTimeMs (examinedFrom (occurrences (recurringEvent ''swim'' swimIter)) 0))"
    unfolding swim_fields examinedFrom_swimIter
    by (simp add: plainOccurrence_def hour_def msPerDay_def)
  from occurrence_ids_distinct[OF swim_fields(1,2,3,4) ne items times,
      of "monday - 30 * msPerDay" "monday + 200 * msPerDay" "js ''cal''" "js ''Family''" "js ''#58a6ff''"]
  have d: "distinct (map ev_id (parseVEvent (monday - 30 * msPerDay) (monday + 200 * msPerDay)
               (js ''cal'') (js ''Family'') (js ''#58a6ff'') (recurringEvent ''swim'' swimIter) []))"
    by blast
  have "parseVEvent (monday - 30 * msPerDay) (monday + 200 * msPerDay)
               (js ''cal'') (js ''Family'') (js ''#58a6ff'') (recurringEvent ''swim'' swimIter) [] =
        emitWhile (occurrenceEvent (event (recurringEvent ''swim'' swimIter)) (js ''cal'') (js ''Family'') (js ''#58a6ff''))
          (examinedFrom swimIter 0)"
    using parseVEvent_recurring[OF swim_fields(1,2,3), of "monday - 30 * msPerDay" "monday + 200 * msPerDay"
        "js ''cal''" "js ''Family''" "js ''#58a6ff''" "[]"]
    by (simp add: swim_fields swim_wide_window)
  then have ids: "map ev_id (parseVEvent (monday - 30 * msPerDay) (monday + 200 * msPerDay)
               (js ''cal'') (js ''Family'') (js ''#58a6ff'') (recurringEvent ''swim'' swimIter) []) =
     [js ''cal-swim-1702915200000'', js ''cal-swim-1704124800000'', js ''cal-swim-1712764800000'']"
    unfolding examinedFrom_swimIter
    by (simp add: swim_occurrenceEvent swim_times numToString_mondayNine) (simp add: js_def)
  from d ids times swim_fields show ?thesis by simp
qed

text \<open>
  Claim C5 as stated fails: the ids of two different events of the merged set can be equal.
  Two records of one feed with the same \<^verbatim>\<open>UID\<close> and different times give two different
  events with the same id.
\<close>

theorem duplicate_uid_counterexample:
  "parseICSEvents calgary mondayNoon mondayNoon (Component [dentist, dentistTuesday])
     (js ''cal'') (js ''Family'') (js ''#58a6ff'') = [dentistEvent, dentistTuesdayEvent] \<and>
   dentistEvent \<noteq> dentistTuesdayEvent \<and>
   ev_id dentistEvent = ev_id dentistTuesdayEvent"
proof -
  have f: "\<not> hasRecurrenceId dentistTuesday" "\<not> isRecurring dentistTuesday"
    "startDate (event dentistTuesday) = Some \<lparr> toJSDate = monday + 33 * hour, isDate = False \<rparr>"
    "endDate dentistTuesday = Some \<lparr> toJSDate = monday + 34 * hour, isDate = False \<rparr>"
    by (simp_all add: dentistTuesday_def)
  have t: "trim (js ''Dentist'') = js ''Dentist''"
    by (simp add: trim_def trimEnd_def trimStart_def js_def isWhiteSpace_def)
  have e: "newEvent (event dentistTuesday) (monday + 33 * hour) (monday + 34 * hour)
     (js ''cal'') (js ''Family'') (js ''#58a6ff'') None = Some dentistTuesdayEvent"
    by (simp add: newEvent_def dentistTuesday_def dentistTuesdayEvent_def t Let_def) (simp add: js_def)
  have "parseICSEvents calgary mondayNoon mondayNoon (Component [dentist, dentistTuesday])
     (js ''cal'') (js ''Family'') (js ''#58a6ff'') = [dentistEvent, dentistTuesdayEvent]"
    by (simp add: parseICSEvents_def parseVEvent_def pushEvent_def dentist_fields dentist_event f e)
  moreover have "dentistEvent \<noteq> dentistTuesdayEvent"
    by (simp add: dentistEvent_def dentistTuesdayEvent_def hour_def)
  ultimately show ?thesis
    by (simp add: dentistEvent_def dentistTuesdayEvent_def)
qed

section \<open>Refreshing and merging the feeds: facts\<close>

lemma objGet_objSet: "objGet (objSet obj k v) k' = (if k' = k then Some v else objGet obj k')"
proof -
  have r: "map_of (map (\<lambda>(k', v'). if k' = k then (k', v) else (k', v')) obj) k' =
     (if k' = k then (if map_of obj k = None then None else Some v) else map_of obj k')"
    by (induction obj) auto
  have i: "k \<in> fst ` set obj \<longleftrightarrow> map_of obj k \<noteq> None"
    by (simp add: map_of_eq_None_iff)
  show ?thesis
    unfolding objSet_def objGet_def i
    by (cases "map_of obj k") (auto simp: r map_add_def split: option.splits)
qed

lemma objectValues_mset: "mset (objectValues obj) = image_mset snd (mset obj)"
proof -
  have "mset (sort_key (\<lambda>(k, v). digitsValue k) (filter (\<lambda>(k, v). isArrayIndex k) obj) @
              filter (\<lambda>(k, v). \<not> isArrayIndex k) obj) = mset obj"
    by (simp add: case_prod_unfold)
  then show ?thesis
    by (simp only: objectValues_def mset_map)
qed

lemma mset_concat_sum: "mset (concat xss) = sum_mset (image_mset mset (mset xss))"
  by (induction xss) simp_all

lemma mergedEvents_mset:
  "mset (mergedEvents obj) = sum_mset (image_mset (\<lambda>kv. mset (snd kv)) (mset obj))"
  by (simp add: mergedEvents_def mset_concat_sum objectValues_mset image_mset.compositionality comp_def)





text \<open>
  The refresh of one feed by its timer writes the entry of that feed alone, and nothing
  when the fetch or the parse fails.
\<close>

lemma fetchCalendar_failure:
  "fetchOneCalendar env cal = Inl e \<Longrightarrow>
     eventsByCalendar (fetchCalendar env cal st) = eventsByCalendar st"
  by (simp add: fetchCalendar_def)

lemma fetchCalendar_success:
  "fetchOneCalendar env cal = Inr parsed \<Longrightarrow>
     objGet (eventsByCalendar (fetchCalendar env cal st)) k =
       (if k = cfg_id cal then Some parsed else objGet (eventsByCalendar st) k)"
  by (simp add: fetchCalendar_def objGet_objSet)





lemma not_index:
  "\<not> isArrayIndex (js ''cal'')" "\<not> isArrayIndex (js ''club'')" "\<not> isArrayIndex (js ''school'')"
  "\<not> isArrayIndex (js ''work'')" "\<not> isArrayIndex (js ''home'')"
  by (simp_all add: isArrayIndex_def js_def)


section \<open>Refreshing and merging the feeds: claims\<close>



text \<open>
  Claim C9. The merged events of the record that holds first the events \<open>A\<close> of one feed
  and then the events \<open>B\<close> of another are, as a multiset, those of the record that holds
  them in the other order: the events of \<open>A\<close> and those of \<open>B\<close>. The two feeds have
  different ids, as the keys of a record do.
\<close>

theorem merge_commutes:
  assumes "a \<noteq> b"
  shows "mset (mergedEvents (objSet (objSet [] a A) b B)) =
         mset (mergedEvents (objSet (objSet [] b B) a A)) \<and>
         mset (mergedEvents (objSet (objSet [] a A) b B)) = mset A + mset B"
  using assms by (simp add: mergedEvents_mset objSet_def)

theorem merge_commutes_witness:
  "js ''work'' \<noteq> js ''home'' \<and>
   mergedEvents (objSet (objSet [] (js ''work'') [dentistEvent]) (js ''home'') [clubEvent]) =
     [dentistEvent, clubEvent] \<and>
   mergedEvents (objSet (objSet [] (js ''home'') [clubEvent]) (js ''work'') [dentistEvent]) =
     [clubEvent, dentistEvent] \<and>
   mset [dentistEvent, clubEvent] = mset [clubEvent, dentistEvent]"
proof -
  have ne: "js ''work'' \<noteq> js ''home''" "js ''home'' \<noteq> js ''work''" by (simp_all add: js_def)
  have 1: "mergedEvents (objSet (objSet [] (js ''work'') [dentistEvent]) (js ''home'') [clubEvent]) =
     [dentistEvent, clubEvent]"
    by (simp add: mergedEvents_def objectValues_def objSet_def ne not_index)
  have 2: "mergedEvents (objSet (objSet [] (js ''home'') [clubEvent]) (js ''work'') [dentistEvent]) =
     [clubEvent, dentistEvent]"
    by (simp add: mergedEvents_def objectValues_def objSet_def ne not_index)
  from merge_commutes[OF ne(1), of "[dentistEvent]" "[clubEvent]"]
  have "mset [dentistEvent, clubEvent] = mset [clubEvent, dentistEvent]"
    unfolding 1 2 by blast
  with ne 1 2 show ?thesis by simp
qed

end
